theory Spec2Isabelle
  imports Complex_Main "HOL-Library.Sublist" "HOL-Library.List_Lexorder" "HOL-Library.Char_ord"
    "HOL-Library.Multiset"
begin

section \<open>Numbers\<close>

text \<open>
  A JavaScript number is a finite binary64 value, an infinity or NaN. Finite values are
  modelled by the real they denote: rounding to the nearest binary64 value and the sign
  of zero are not modelled, overflow to an infinity is (\<open>f64\<close>). Every result that the
  program computes from numbers goes through \<open>f64\<close>.
\<close>

datatype jsnum = Num real | PInf | NInf | NaN

definition overflowBound :: real where
  \<comment> \<open>the least magnitude that binary64 rounds to an infinity\<close>
  "overflowBound = 2 ^ 1024 - 2 ^ 970"

definition f64 :: "real \<Rightarrow> jsnum" where
  "f64 x = (if overflowBound \<le> x then PInf else if x \<le> - overflowBound then NInf else Num x)"

fun isFinite :: "jsnum \<Rightarrow> bool" where
  "isFinite (Num _) = True"
| "isFinite _ = False"

fun isNaN :: "jsnum \<Rightarrow> bool" where
  "isNaN NaN = True"
| "isNaN _ = False"

fun jneg :: "jsnum \<Rightarrow> jsnum" where
  "jneg (Num a) = Num (- a)"
| "jneg PInf = NInf"
| "jneg NInf = PInf"
| "jneg NaN = NaN"

fun jadd :: "jsnum \<Rightarrow> jsnum \<Rightarrow> jsnum" where
  "jadd NaN _ = NaN"
| "jadd _ NaN = NaN"
| "jadd PInf NInf = NaN"
| "jadd NInf PInf = NaN"
| "jadd PInf _ = PInf"
| "jadd _ PInf = PInf"
| "jadd NInf _ = NInf"
| "jadd _ NInf = NInf"
| "jadd (Num a) (Num b) = f64 (a + b)"

definition jsub :: "jsnum \<Rightarrow> jsnum \<Rightarrow> jsnum" where
  "jsub a b = jadd a (jneg b)"

fun jmul :: "jsnum \<Rightarrow> jsnum \<Rightarrow> jsnum" where
  "jmul NaN _ = NaN"
| "jmul _ NaN = NaN"
| "jmul (Num a) (Num b) = f64 (a * b)"
| "jmul (Num a) PInf = (if a = 0 then NaN else if 0 < a then PInf else NInf)"
| "jmul (Num a) NInf = (if a = 0 then NaN else if 0 < a then NInf else PInf)"
| "jmul PInf (Num b) = (if b = 0 then NaN else if 0 < b then PInf else NInf)"
| "jmul NInf (Num b) = (if b = 0 then NaN else if 0 < b then NInf else PInf)"
| "jmul PInf PInf = PInf"
| "jmul NInf NInf = PInf"
| "jmul PInf NInf = NInf"
| "jmul NInf PInf = NInf"

fun jdiv :: "jsnum \<Rightarrow> jsnum \<Rightarrow> jsnum" where
  \<comment> \<open>a zero divisor is taken as \<open>+0\<close>; the program divides by positive numbers only\<close>
  "jdiv NaN _ = NaN"
| "jdiv _ NaN = NaN"
| "jdiv (Num a) (Num b) =
     (if b = 0 then (if a = 0 then NaN else if 0 < a then PInf else NInf) else f64 (a / b))"
| "jdiv (Num a) PInf = Num 0"
| "jdiv (Num a) NInf = Num 0"
| "jdiv PInf (Num b) = (if 0 \<le> b then PInf else NInf)"
| "jdiv NInf (Num b) = (if 0 \<le> b then NInf else PInf)"
| "jdiv PInf PInf = NaN"
| "jdiv PInf NInf = NaN"
| "jdiv NInf PInf = NaN"
| "jdiv NInf NInf = NaN"

fun jgt :: "jsnum \<Rightarrow> jsnum \<Rightarrow> bool" where
  \<comment> \<open>\<open>a > b\<close>\<close>
  "jgt NaN _ = False"
| "jgt _ NaN = False"
| "jgt (Num a) (Num b) = (b < a)"
| "jgt PInf PInf = False"
| "jgt PInf _ = True"
| "jgt NInf _ = False"
| "jgt (Num a) NInf = True"
| "jgt (Num a) PInf = False"

fun floorJS :: "jsnum \<Rightarrow> jsnum" where
  \<comment> \<open>\<open>Math.floor\<close>\<close>
  "floorJS (Num a) = Num (of_int \<lfloor>a\<rfloor>)"
| "floorJS n = n"

section \<open>Values and errors\<close>

text \<open>
  The values that \<open>response.json()\<close> can deliver, and \<open>undefined\<close>, which reading a
  missing property yields. An object is the list of its own properties, each key once.
  A \<open>char\<close> stands for the UTF-16 code unit of the same number.
\<close>

datatype jsval = JUndefined | JNull | JBool bool | JNum jsnum | JStr string
  | JArr "jsval list" | JObj "(string \<times> jsval) list"

datatype error = TypeError | NetworkError | HttpError nat | SyntaxError | EmptyDataSet

definition bindE :: "error + 'a \<Rightarrow> ('a \<Rightarrow> error + 'b) \<Rightarrow> error + 'b" where
  \<comment> \<open>sequencing: an exception ends the evaluation\<close>
  "bindE m f = (case m of Inl e \<Rightarrow> Inl e | Inr x \<Rightarrow> f x)"

fun isNumber :: "jsval \<Rightarrow> bool" where
  \<comment> \<open>\<open>typeof val === 'number'\<close>\<close>
  "isNumber (JNum _) = True"
| "isNumber _ = False"

fun truthy :: "jsval \<Rightarrow> bool" where
  \<comment> \<open>the values that \<open>||\<close> stops at\<close>
  "truthy JUndefined = False"
| "truthy JNull = False"
| "truthy (JBool b) = b"
| "truthy (JNum n) = (n \<noteq> Num 0 \<and> n \<noteq> NaN)"
| "truthy (JStr s) = (s \<noteq> [])"
| "truthy (JArr _) = True"
| "truthy (JObj _) = True"

fun getProp :: "jsval \<Rightarrow> string \<Rightarrow> error + jsval" where
  \<comment> \<open>\<open>item[k]\<close>, for the property names this program reads: none of them is inherited
      from a prototype, so only an object's own properties can answer\<close>
  "getProp JUndefined k = Inl TypeError"
| "getProp JNull k = Inl TypeError"
| "getProp (JObj kvs) k = Inr (case map_of kvs k of Some v \<Rightarrow> v | None \<Rightarrow> JUndefined)"
| "getProp _ k = Inr JUndefined"

text \<open>
  \<open>val.toString()\<close>. Formatting a number is the host's (\<open>nts\<close>). An array joins its
  elements with commas, \<open>null\<close> and \<open>undefined\<close> elements as the empty text. An object
  parsed from JSON holds no function: an own property \<open>toString\<close> hides
  \<open>Object.prototype.toString\<close> and the call throws.
\<close>

fun toStringJS :: "(jsnum \<Rightarrow> string) \<Rightarrow> jsval \<Rightarrow> error + string"
  and joinElems :: "(jsnum \<Rightarrow> string) \<Rightarrow> jsval list \<Rightarrow> error + string" where
  "toStringJS nts JUndefined = Inl TypeError"
| "toStringJS nts JNull = Inl TypeError"
| "toStringJS nts (JBool b) = Inr (if b then ''true'' else ''false'')"
| "toStringJS nts (JNum n) = Inr (nts n)"
| "toStringJS nts (JStr s) = Inr s"
| "toStringJS nts (JArr xs) = joinElems nts xs"
| "toStringJS nts (JObj kvs) =
     (if ''toString'' \<in> set (map fst kvs) then Inl TypeError else Inr ''[object Object]'')"
| "joinElems nts [] = Inr ''''"
| "joinElems nts (x # xs) =
     (case (if x = JUndefined \<or> x = JNull then Inr '''' else toStringJS nts x) of
        Inl e \<Rightarrow> Inl e
      | Inr s \<Rightarrow> (if xs = [] then Inr s
                 else (case joinElems nts xs of Inl e \<Rightarrow> Inl e | Inr t \<Rightarrow> Inr (s @ '','' @ t))))"

section \<open>Reading numbers from text\<close>

definition isDigit :: "char \<Rightarrow> bool" where
  "isDigit c = (c \<in> set ''0123456789'')"

definition digitVal :: "char \<Rightarrow> nat" where
  "digitVal c = of_char c - 48"

definition decimalValue :: "string \<Rightarrow> nat" where
  "decimalValue ds = foldl (\<lambda>a c. 10 * a + digitVal c) 0 ds"

definition isWhiteSpace :: "char \<Rightarrow> bool" where
  \<comment> \<open>the white space and line terminators below code unit 256\<close>
  "isWhiteSpace c = ((of_char c :: nat) \<in> set [9, 10, 11, 12, 13, 32, 160])"

definition scanExponent :: "real \<Rightarrow> string \<Rightarrow> real \<times> string" where
  \<comment> \<open>an exponent part counts only when digits follow it\<close>
  "scanExponent m r =
     (case r of
        [] \<Rightarrow> (m, r)
      | c # r1 \<Rightarrow>
          if c = CHR ''e'' \<or> c = CHR ''E'' then
            (let neg = (case r1 of [] \<Rightarrow> False | s # _ \<Rightarrow> s = CHR ''-'');
                 r2 = (case r1 of [] \<Rightarrow> r1
                       | s # r' \<Rightarrow> if s = CHR ''-'' \<or> s = CHR ''+'' then r' else r1);
                 ds = takeWhile isDigit r2
             in if ds = [] then (m, r)
                else (if neg then m / 10 ^ decimalValue ds else m * 10 ^ decimalValue ds,
                      dropWhile isDigit r2))
          else (m, r))"

definition scanUnsigned :: "string \<Rightarrow> (jsnum \<times> string) option" where
  \<comment> \<open>the longest prefix that is an unsigned decimal literal, its value and the rest\<close>
  "scanUnsigned s =
     (if take 8 s = ''Infinity'' then Some (PInf, drop 8 s)
      else
        (let ip = takeWhile isDigit s; r1 = dropWhile isDigit s
         in case r1 of
              [] \<Rightarrow> (if ip = [] then None else Some (f64 (real (decimalValue ip)), r1))
            | c # r2 \<Rightarrow>
                if c = CHR ''.'' then
                  (let fp = takeWhile isDigit r2; r3 = dropWhile isDigit r2
                   in if ip = [] \<and> fp = [] then None
                      else (case scanExponent
                                   (real (decimalValue ip)
                                    + real (decimalValue fp) / 10 ^ length fp) r3 of
                              (m, r4) \<Rightarrow> Some (f64 m, r4)))
                else if ip = [] then None
                else (case scanExponent (real (decimalValue ip)) r1 of
                        (m, r4) \<Rightarrow> Some (f64 m, r4))))"

definition scanDecimal :: "string \<Rightarrow> (jsnum \<times> string) option" where
  "scanDecimal s =
     (case s of
        [] \<Rightarrow> None
      | c # r \<Rightarrow>
          if c = CHR ''-'' then map_option (\<lambda>(v, t). (jneg v, t)) (scanUnsigned r)
          else if c = CHR ''+'' then scanUnsigned r
          else scanUnsigned s)"

definition parseFloat :: "string \<Rightarrow> jsnum" where
  \<comment> \<open>leading white space is skipped, what follows the literal is ignored\<close>
  "parseFloat s =
     (case scanDecimal (dropWhile isWhiteSpace s) of None \<Rightarrow> NaN | Some (v, _) \<Rightarrow> v)"

section \<open>The host\<close>

text \<open>
  What the program takes from its environment: the values that successive calls of
  \<open>Math.random()\<close> return, each in \<open>[0, 1)\<close>, the decimal text of a number
  (\<open>Number.prototype.toString()\<close>) and its text in radix 36 (\<open>toString(36)\<close>).
  A computation that draws random numbers carries the count of the draws made so far.
\<close>

record host =
  random :: "nat \<Rightarrow> real"
  numToString :: "jsnum \<Rightarrow> string"
  toString36 :: "real \<Rightarrow> string"

section \<open>Currency parser\<close>

definition stripNonNumeric :: "string \<Rightarrow> string" where
  \<comment> \<open>\<open>replace(/[^\d.-]/g, '')\<close>\<close>
  "stripNonNumeric s = filter (\<lambda>c. isDigit c \<or> c = CHR ''.'' \<or> c = CHR ''-'') s"

definition parseCurrency :: "host \<Rightarrow> jsval \<Rightarrow> error + jsnum" where
  "parseCurrency h val =
     (if val = JNull \<or> val = JUndefined \<or> val = JStr '''' then Inr (Num 0)
      else case val of
             JNum n \<Rightarrow> Inr n
           | _ \<Rightarrow> bindE (toStringJS (numToString h) val) (\<lambda>text.
                   let cleaned = stripNonNumeric text;
                       parsed = parseFloat cleaned
                   in Inr (if isNaN parsed then Num 0 else parsed)))"

section \<open>Records\<close>

text \<open>
  \<open>DataRecord\<close> of the interface file. The interface declares \<open>id\<close>, \<open>name\<close> and
  \<open>monthYear\<close> as strings (instance \<open>string DataRecord\<close>, which the derived views are
  typed against); the types are erased when the program runs and the normalizer stores
  whatever value the payload holds (instance \<open>jsval DataRecord\<close>).
\<close>

record 'v DataRecord =
  id_field :: 'v
  name :: 'v
  potentialRevenue :: jsnum
  invoiceAmount :: jsnum
  dollarsCollected :: jsnum
  expenseIncurred :: jsnum
  netRevenue :: jsnum
  monthYear :: 'v

record Totals =
  totalPotentialRevenue :: jsnum
  totalInvoiceAmount :: jsnum
  totalDollarsCollected :: jsnum
  totalExpenseIncurred :: jsnum
  totalNetRevenue :: jsnum

record DashboardStats = Totals +
  collectionRate :: jsnum

datatype LoadingStatus = IDLE | LOADING | SUCCESS | ERROR

section \<open>Mock data generator\<close>

definition randomId :: "host \<Rightarrow> nat \<Rightarrow> string" where
  \<comment> \<open>\<open>Math.random().toString(36).substr(2, 9)\<close>, on draw number \<open>i\<close>\<close>
  "randomId h i = take 9 (drop 2 (toString36 h (random h i)))"

definition mockRecord :: "host \<Rightarrow> nat \<Rightarrow> string \<Rightarrow> string \<Rightarrow> jsval DataRecord" where
  \<comment> \<open>the body of the inner loop; it makes draws \<open>i\<close> to \<open>i + 3\<close>\<close>
  "mockRecord h i nm month =
     (let pot = jadd (floorJS (jmul (Num (random h i)) (Num 15000))) (Num 5000);
          inv' = jmul pot (Num 0.85);
          coll = jmul inv' (jadd (Num 0.7) (jmul (Num (random h (i + 1))) (Num 0.3)));
          exp' = jadd (floorJS (jmul (Num (random h (i + 2))) (Num 4000))) (Num 500)
      in \<lparr>id_field = JStr (randomId h (i + 3)), name = JStr nm, potentialRevenue = pot,
          invoiceAmount = inv', dollarsCollected = coll, expenseIncurred = exp',
          netRevenue = jsub coll exp', monthYear = JStr month\<rparr>)"

definition generateMockData :: "host \<Rightarrow> nat \<Rightarrow> jsval DataRecord list \<times> nat" where
  \<comment> \<open>the two nested \<open>forEach\<close> loops push onto \<open>data\<close>; the result is \<open>data\<close> and the
      count of draws\<close>
  "generateMockData h i =
     (let names = [''Acme Corp'', ''Globex'', ''Soylent Corp'', ''Initech'', ''Umbrella Co''];
          months = [''01/2024'', ''02/2024'', ''03/2024'', ''04/2024'', ''05/2024'']
      in foldl (\<lambda>(data, j) nm.
           foldl (\<lambda>(data, j) month. (data @ [mockRecord h j nm month], j + 4)) (data, j) months)
           ([], i) names)"

section \<open>Record normalizer\<close>

definition orJS :: "jsval \<Rightarrow> jsval \<Rightarrow> jsval" where
  \<comment> \<open>\<open>a || b\<close> for operands whose evaluation has no effect\<close>
  "orJS a b = (if truthy a then a else b)"

definition normalize :: "host \<Rightarrow> jsval \<Rightarrow> nat \<Rightarrow> (error + jsval DataRecord) \<times> nat" where
  \<comment> \<open>the function mapped over \<open>dataArray\<close>, at draw count \<open>i\<close>. Reading a property has
      no effect, so the operands of \<open>||\<close> are read at once; \<open>Math.random()\<close> is called
      only when the three candidates for the id are falsy, after every exception\<close>
  "normalize h item i =
     (case
        bindE (getProp item ''Potential Revenue'') (\<lambda>v1. bindE (parseCurrency h v1) (\<lambda>pot.
        bindE (getProp item ''Invoice Amount'') (\<lambda>v2. bindE (parseCurrency h v2) (\<lambda>inv'.
        bindE (getProp item ''Dollars Collected'') (\<lambda>v3. bindE (parseCurrency h v3) (\<lambda>coll.
        bindE (getProp item ''Expense Incurred'') (\<lambda>v4. bindE (parseCurrency h v4) (\<lambda>exp'.
        bindE (getProp item ''Net Revenue'') (\<lambda>v5.
        bindE (if v5 \<noteq> JNull then parseCurrency h v5 else Inr (jsub coll exp')) (\<lambda>net.
        bindE (getProp item ''Opportunity ID'') (\<lambda>a1.
        bindE (getProp item ''id'') (\<lambda>a2.
        bindE (getProp item ''key'') (\<lambda>a3.
        bindE (getProp item ''Name'') (\<lambda>b1.
        bindE (getProp item ''name'') (\<lambda>b2.
        bindE (getProp item ''MM/YYYY'') (\<lambda>c1.
        bindE (getProp item ''monthYear'') (\<lambda>c2.
          Inr (pot, inv', coll, exp', net, orJS (orJS a1 a2) a3, orJS b1 b2, orJS c1 c2))))))))))))))))))
      of
        Inl e \<Rightarrow> (Inl e, i)
      | Inr (pot, inv', coll, exp', net, a, b, c) \<Rightarrow>
          (Inr \<lparr>id_field = (if truthy a then a else JStr (randomId h i)),
                name = orJS b (JStr ''Unknown Entity''),
                potentialRevenue = pot, invoiceAmount = inv', dollarsCollected = coll,
                expenseIncurred = exp', netRevenue = net,
                monthYear = orJS c (JStr ''01/2024'')\<rparr>,
           if truthy a then i else i + 1))"

fun normalizeAll :: "host \<Rightarrow> jsval list \<Rightarrow> nat \<Rightarrow> (error + jsval DataRecord list) \<times> nat" where
  \<comment> \<open>\<open>dataArray.map\<close>: in order, ended by the first exception\<close>
  "normalizeAll h [] i = (Inr [], i)"
| "normalizeAll h (item # items) i =
     (case normalize h item i of
        (Inl e, j) \<Rightarrow> (Inl e, j)
      | (Inr r, j) \<Rightarrow>
          (case normalizeAll h items j of
             (Inl e, k) \<Rightarrow> (Inl e, k)
           | (Inr rs, k) \<Rightarrow> (Inr (r # rs), k)))"

section \<open>Data loader\<close>

record Response =
  ok :: bool
  statusCode :: nat
  json :: "error + jsval"

record AppState =
  rawData :: "jsval DataRecord list"
  status :: LoadingStatus
  usingMockData :: bool

definition dataArrayOf :: "jsval \<Rightarrow> jsval list" where
  \<comment> \<open>\<open>Array.isArray(data) ? data : [data]\<close>\<close>
  "dataArrayOf data = (case data of JArr xs \<Rightarrow> xs | _ \<Rightarrow> [data])"

definition tryBlock :: "host \<Rightarrow> error + Response \<Rightarrow> nat \<Rightarrow> (error + jsval DataRecord list) \<times> nat"
  where
  \<comment> \<open>the body of \<open>try\<close>: the records, or the exception that leaves it. \<open>Inl\<close> of the
      outcome is a rejected \<open>fetch\<close>; \<open>json\<close> of a response is what parsing its body gives\<close>
  "tryBlock h outcome i =
     (case outcome of
        Inl e \<Rightarrow> (Inl e, i)
      | Inr response \<Rightarrow>
          if \<not> ok response then (Inl (HttpError (statusCode response)), i)
          else (case json response of
                  Inl e \<Rightarrow> (Inl e, i)
                | Inr data \<Rightarrow>
                    (let dataArray = dataArrayOf data
                     in if length dataArray = 0 then (Inl EmptyDataSet, i)
                        else normalizeAll h dataArray i)))"

definition fetchData :: "host \<Rightarrow> error + Response \<Rightarrow> AppState \<times> nat \<Rightarrow> AppState \<times> nat" where
  "fetchData h outcome s =
     (case s of (st, i) \<Rightarrow>
        (let st1 = st\<lparr>status := LOADING\<rparr>
         in case tryBlock h outcome i of
              (Inr formattedData, j) \<Rightarrow>
                (st1\<lparr>rawData := formattedData, usingMockData := False, status := SUCCESS\<rparr>, j)
            | (Inl e, j) \<Rightarrow>
                (case generateMockData h j of
                   (data, k) \<Rightarrow>
                     (st1\<lparr>rawData := data, usingMockData := True, status := SUCCESS\<rparr>, k))))"

definition initialState :: AppState where
  \<comment> \<open>the initial values given to \<open>useState\<close>\<close>
  "initialState = \<lparr>rawData = [], status = IDLE, usingMockData = False\<rparr>"

section \<open>Derived views\<close>

definition setOf :: "'a list \<Rightarrow> 'a list" where
  \<comment> \<open>\<open>[...new Set(xs)]\<close>: the distinct elements, each at its first occurrence\<close>
  "setOf xs = foldl (\<lambda>acc x. if x \<in> set acc then acc else acc @ [x]) [] xs"

definition uniqueNames :: "string DataRecord list \<Rightarrow> string list" where
  \<comment> \<open>\<open>sort()\<close> without a comparator orders strings by their code units, which is the
      lexicographic order of \<open>string\<close>\<close>
  "uniqueNames records = sort (''All'' # setOf (map name records))"

fun splitOn :: "char \<Rightarrow> string \<Rightarrow> string list" where
  \<comment> \<open>\<open>s.split(c)\<close>\<close>
  "splitOn c [] = [[]]"
| "splitOn c (x # xs) =
     (if x = c then [] # splitOn c xs
      else (case splitOn c xs of [] \<Rightarrow> [[x]] | p # ps \<Rightarrow> (x # p) # ps))"

definition trimJS :: "string \<Rightarrow> string" where
  "trimJS s = rev (dropWhile isWhiteSpace (rev (dropWhile isWhiteSpace s)))"

definition radixDigit :: "char \<Rightarrow> nat" where
  "radixDigit c =
     (if isDigit c then digitVal c
      else if c \<in> set ''abcdef'' then of_char c - 87 else of_char c - 55)"

definition radixLiteral :: "nat \<Rightarrow> string \<Rightarrow> jsnum" where
  \<comment> \<open>the digits after \<open>0x\<close>, \<open>0o\<close> or \<open>0b\<close>\<close>
  "radixLiteral base ds =
     (if ds \<noteq> [] \<and> list_all (\<lambda>c. c \<in> set ''0123456789abcdefABCDEF'' \<and> radixDigit c < base) ds
      then f64 (real (foldl (\<lambda>a c. base * a + radixDigit c) 0 ds))
      else NaN)"

definition toNumber :: "string \<Rightarrow> jsnum" where
  \<comment> \<open>\<open>Number(s)\<close> on a string: the whole trimmed text must be a numeric literal\<close>
  "toNumber s =
     (let t = trimJS s
      in if t = [] then Num 0
         else if take 2 t = ''0x'' \<or> take 2 t = ''0X'' then radixLiteral 16 (drop 2 t)
         else if take 2 t = ''0o'' \<or> take 2 t = ''0O'' then radixLiteral 8 (drop 2 t)
         else if take 2 t = ''0b'' \<or> take 2 t = ''0B'' then radixLiteral 2 (drop 2 t)
         else (case scanDecimal t of
                 None \<Rightarrow> NaN
               | Some (v, rest) \<Rightarrow> if rest = [] then v else NaN))"

definition monthKey :: "string \<Rightarrow> jsnum" where
  \<comment> \<open>\<open>const [m, y] = a.split('/').map(Number)\<close>, then \<open>y * 12 + m\<close>; a missing second
      part is \<open>undefined\<close>, which the product turns into NaN. The product and the sum are
      exact where both parts are whole numbers below \<open>2 ^ 53 / 13\<close>, as they are for a month
      \<open>MM/YYYY\<close>; the rounding of other keys is not represented\<close>
  "monthKey a =
     (let parts = map toNumber (splitOn (CHR ''/'') a);
          m = (case parts of [] \<Rightarrow> NaN | x # _ \<Rightarrow> x);
          y = (case parts of _ # x # _ \<Rightarrow> x | _ \<Rightarrow> NaN)
      in jadd (jmul y (Num 12)) m)"

definition compareMonths :: "string \<Rightarrow> string \<Rightarrow> jsnum" where
  "compareMonths a b =
     (if a = ''All'' then Num (- 1)
      else if b = ''All'' then Num 1
      else jsub (monthKey a) (monthKey b))"

text \<open>
  \<open>sort(comparefn)\<close>, as the V8 engine (Chrome, Node) runs it on an array of fewer than 64
  elements: the run that starts the array is found, a strictly descending one is reversed,
  and each element after it is put into the sorted part at the place a binary search finds.
  \<open>a\<close> goes before \<open>b\<close> when \<open>comparefn(a, b) < 0\<close>; a result that is NaN counts as \<open>0\<close>.
  A longer array is cut into runs that are sorted this way and then merged; the language
  fixes the result for a consistent comparator, and the list computed here is that result.
\<close>

fun isNegative :: "jsnum \<Rightarrow> bool" where
  \<comment> \<open>\<open>order < 0\<close>\<close>
  "isNegative (Num a) = (a < 0)"
| "isNegative NInf = True"
| "isNegative PInf = False"
| "isNegative NaN = False"

fun runAscending :: "('a \<Rightarrow> 'a \<Rightarrow> jsnum) \<Rightarrow> 'a \<Rightarrow> 'a list \<Rightarrow> nat" where
  \<comment> \<open>how many elements continue a run after \<open>prev\<close>: the loop ends at \<open>order < 0\<close>\<close>
  "runAscending cmp prev [] = 0"
| "runAscending cmp prev (x # xs) =
     (if isNegative (cmp x prev) then 0 else Suc (runAscending cmp x xs))"

fun runDescending :: "('a \<Rightarrow> 'a \<Rightarrow> jsnum) \<Rightarrow> 'a \<Rightarrow> 'a list \<Rightarrow> nat" where
  \<comment> \<open>the same for a descending run: the loop ends at \<open>order >= 0\<close>\<close>
  "runDescending cmp prev [] = 0"
| "runDescending cmp prev (x # xs) =
     (if isNegative (cmp x prev) then Suc (runDescending cmp x xs) else 0)"

definition countAndMakeRun :: "('a \<Rightarrow> 'a \<Rightarrow> jsnum) \<Rightarrow> 'a list \<Rightarrow> 'a list \<times> nat" where
  \<comment> \<open>the array with its first run made ascending, and the length of that run; the
      second element is compared with the first to tell the direction\<close>
  "countAndMakeRun cmp xs =
     (case xs of
        a # b # rest \<Rightarrow>
          if isNegative (cmp b a)
          then (let n = 2 + runDescending cmp b rest in (rev (take n xs) @ drop n xs, n))
          else (xs, 2 + runAscending cmp b rest)
      | _ \<Rightarrow> (xs, length xs))"

function binarySearch :: "('a \<Rightarrow> 'a \<Rightarrow> jsnum) \<Rightarrow> 'a \<Rightarrow> 'a list \<Rightarrow> nat \<Rightarrow> nat \<Rightarrow> nat" where
  \<comment> \<open>the place of \<open>pivot\<close> among the sorted elements \<open>work\<close>, looked for between
      \<open>left\<close> and \<open>right\<close>; it is called with \<open>right\<close> at most the length of \<open>work\<close>\<close>
  "binarySearch cmp pivot work left right =
     (if left < right
      then (if isNegative (cmp pivot (work ! (left + (right - left) div 2)))
            then binarySearch cmp pivot work left (left + (right - left) div 2)
            else binarySearch cmp pivot work (left + (right - left) div 2 + 1) right)
      else left)"
  by pat_completeness auto
termination
  by (relation "measure (\<lambda>(cmp, pivot, work, left, right). right - left)") auto

declare binarySearch.simps [simp del]

definition insertPivot :: "('a \<Rightarrow> 'a \<Rightarrow> jsnum) \<Rightarrow> 'a list \<Rightarrow> 'a \<Rightarrow> 'a list" where
  "insertPivot cmp work pivot =
     (let left = binarySearch cmp pivot work 0 (length work)
      in take left work @ pivot # drop left work)"

definition binaryInsertionSort :: "('a \<Rightarrow> 'a \<Rightarrow> jsnum) \<Rightarrow> 'a list \<Rightarrow> 'a list \<Rightarrow> 'a list" where
  \<comment> \<open>the elements of \<open>rest\<close> put one by one, in their order, into the sorted \<open>run\<close>\<close>
  "binaryInsertionSort cmp run rest = foldl (insertPivot cmp) run rest"

definition sortBy :: "('a \<Rightarrow> 'a \<Rightarrow> jsnum) \<Rightarrow> 'a list \<Rightarrow> 'a list" where
  "sortBy cmp xs =
     (if length xs < 2 then xs
      else (case countAndMakeRun cmp xs of
              (ys, n) \<Rightarrow> binaryInsertionSort cmp (take n ys) (drop n ys)))"

definition uniqueMonths :: "string DataRecord list \<Rightarrow> string list" where
  "uniqueMonths records = sortBy compareMonths (''All'' # setOf (map monthYear records))"

definition filteredData :: "string DataRecord list \<Rightarrow> string \<Rightarrow> string \<Rightarrow> string DataRecord list"
  where
  "filteredData records filterName filterMonth =
     filter (\<lambda>r.
       let nameMatch = (filterName = ''All'' \<or> name r = filterName);
           monthMatch = (filterMonth = ''All'' \<or> monthYear r = filterMonth)
       in nameMatch \<and> monthMatch) records"

definition addTotals :: "Totals \<Rightarrow> 'v DataRecord \<Rightarrow> Totals" where
  \<comment> \<open>the function given to \<open>reduce\<close>\<close>
  "addTotals acc cur =
     \<lparr>totalPotentialRevenue = jadd (totalPotentialRevenue acc) (potentialRevenue cur),
      totalInvoiceAmount = jadd (totalInvoiceAmount acc) (invoiceAmount cur),
      totalDollarsCollected = jadd (totalDollarsCollected acc) (dollarsCollected cur),
      totalExpenseIncurred = jadd (totalExpenseIncurred acc) (expenseIncurred cur),
      totalNetRevenue = jadd (totalNetRevenue acc) (netRevenue cur)\<rparr>"

definition zeroTotals :: Totals where
  "zeroTotals =
     \<lparr>totalPotentialRevenue = Num 0, totalInvoiceAmount = Num 0, totalDollarsCollected = Num 0,
      totalExpenseIncurred = Num 0, totalNetRevenue = Num 0\<rparr>"

definition stats :: "'v DataRecord list \<Rightarrow> DashboardStats" where
  "stats filtered =
     (let s = foldl addTotals zeroTotals filtered
      in \<lparr>totalPotentialRevenue = totalPotentialRevenue s,
          totalInvoiceAmount = totalInvoiceAmount s,
          totalDollarsCollected = totalDollarsCollected s,
          totalExpenseIncurred = totalExpenseIncurred s,
          totalNetRevenue = totalNetRevenue s,
          collectionRate =
            (if jgt (totalInvoiceAmount s) (Num 0)
             then jmul (jdiv (totalDollarsCollected s) (totalInvoiceAmount s)) (Num 100)
             else Num 0)\<rparr>)"

section \<open>Notions of the specification, and examples\<close>

definition sumJS :: "jsnum list \<Rightarrow> jsnum" where
  \<comment> \<open>the sum of a list of numbers, added from left to right\<close>
  "sumJS xs = foldl jadd (Num 0) xs"

definition isDefined :: "jsval \<Rightarrow> bool" where
  "isDefined v = (v \<noteq> JUndefined)"

definition firstDefined :: "jsval list \<Rightarrow> jsval option" where
  \<comment> \<open>the specification's reading of alias resolution: the first defined candidate\<close>
  "firstDefined vs = find isDefined vs"

definition field :: "(string \<times> jsval) list \<Rightarrow> string \<Rightarrow> jsval" where
  \<comment> \<open>the value an object holds under a key, \<open>undefined\<close> when the key is absent\<close>
  "field kvs k = (case map_of kvs k of Some v \<Rightarrow> v | None \<Rightarrow> JUndefined)"

fun isObject :: "jsval \<Rightarrow> bool" where
  \<comment> \<open>an array or an object\<close>
  "isObject (JArr _) = True"
| "isObject (JObj _) = True"
| "isObject _ = False"

definition normalizes :: "host \<Rightarrow> jsval \<Rightarrow> bool" where
  \<comment> \<open>the normalizer returns a record for the item, rather than throwing\<close>
  "normalizes h item = (case fst (normalize h item 0) of Inl _ \<Rightarrow> False | Inr _ \<Rightarrow> True)"

definition isMonthYear :: "string \<Rightarrow> bool" where
  \<comment> \<open>the form \<open>MM/YYYY\<close> of the data model: two digits, a slash, four digits\<close>
  "isMonthYear s =
     (case s of
        [m1, m2, c, y1, y2, y3, y4] \<Rightarrow>
          c = CHR ''/'' \<and> list_all isDigit [m1, m2, y1, y2, y3, y4]
      | _ \<Rightarrow> False)"

definition chronoKey :: "string \<Rightarrow> nat" where
  \<comment> \<open>the specification's key of a month \<open>MM/YYYY\<close>: \<open>year * 12 + month\<close>, read from the
      digits themselves\<close>
  "chronoKey s =
     (case s of
        [m1, m2, c, y1, y2, y3, y4] \<Rightarrow>
          (1000 * digitVal y1 + 100 * digitVal y2 + 10 * digitVal y3 + digitVal y4) * 12
          + (10 * digitVal m1 + digitVal m2)
      | _ \<Rightarrow> 0)"

fun fracDigits36 :: "nat \<Rightarrow> real \<Rightarrow> string" where
  \<comment> \<open>at most \<open>n\<close> digits of the expansion of a fraction in radix 36\<close>
  "fracDigits36 0 x = []"
| "fracDigits36 (Suc n) x =
     (if x = 0 then []
      else (''0123456789abcdefghijklmnopqrstuvwxyz'' ! nat \<lfloor>36 * x\<rfloor>)
           # fracDigits36 n (36 * x - real_of_int \<lfloor>36 * x\<rfloor>))"

fun natDigits :: "nat \<Rightarrow> string" where
  "natDigits n =
     (if n < 10 then [''0123456789'' ! n]
      else natDigits (n div 10) @ [''0123456789'' ! (n mod 10)])"

definition exampleHost :: "real \<Rightarrow> host" where
  \<comment> \<open>a host for the examples: every draw is \<open>u\<close>; a whole number is printed in
      decimal; a fraction of \<open>[0, 1)\<close> is printed in radix 36 with the digits of its
      expansion, eleven at most, and \<open>0\<close> as \<open>0\<close>\<close>
  "exampleHost u =
     \<lparr>random = (\<lambda>_. u),
      numToString = (\<lambda>n. case n of
           Num x \<Rightarrow> (if x < 0 then ''-'' else []) @ natDigits (nat \<lfloor>\<bar>x\<bar>\<rfloor>)
         | PInf \<Rightarrow> ''Infinity'' | NInf \<Rightarrow> ''-Infinity'' | NaN \<Rightarrow> ''NaN''),
      toString36 = (\<lambda>x. if x = 0 then ''0'' else ''0.'' @ fracDigits36 11 x)\<rparr>"

definition sampleRecord :: "string \<Rightarrow> string \<Rightarrow> real \<Rightarrow> real \<Rightarrow> string DataRecord" where
  \<comment> \<open>a record for the examples: name, month, invoiced and collected amounts\<close>
  "sampleRecord nm month billed collected =
     \<lparr>id_field = nm @ month, name = nm, potentialRevenue = Num billed,
      invoiceAmount = Num billed, dollarsCollected = Num collected,
      expenseIncurred = Num 0, netRevenue = Num collected, monthYear = month\<rparr>"

section \<open>Evaluating the text readers\<close>

lemmas parse_defs = parseCurrency_def bindE_def stripNonNumeric_def isDigit_def parseFloat_def
  isWhiteSpace_def scanDecimal_def scanUnsigned_def decimalValue_def digitVal_def
  scanExponent_def f64_def overflowBound_def

lemmas num_defs = toNumber_def trimJS_def isWhiteSpace_def scanDecimal_def scanUnsigned_def
  scanExponent_def isDigit_def decimalValue_def digitVal_def f64_def overflowBound_def

section \<open>Properties of the currency parser\<close>

lemma toStringJS_error: "toStringJS nts v = Inl e \<Longrightarrow> e = TypeError"
  and joinElems_error: "joinElems nts vs = Inl e \<Longrightarrow> e = TypeError"
  by (induction nts v and nts vs rule: toStringJS_joinElems.induct)
     (auto split: sum.splits if_splits)

lemma toStringJS_primitive:
  "\<not> isObject v \<Longrightarrow> v \<noteq> JNull \<Longrightarrow> v \<noteq> JUndefined \<Longrightarrow> \<exists>t. toStringJS nts v = Inr t"
  by (cases v) auto

lemma stripNonNumeric_chars:
  "c \<in> set (stripNonNumeric s) \<Longrightarrow> isDigit c \<or> c = CHR ''.'' \<or> c = CHR ''-''"
  by (auto simp: stripNonNumeric_def)

lemma decimalValue_snoc: "decimalValue (ds @ [c]) = 10 * decimalValue ds + digitVal c"
  by (simp add: decimalValue_def)

lemma digitVal_le: "isDigit c \<Longrightarrow> digitVal c \<le> 9"
  by (auto simp: isDigit_def digitVal_def)

lemma decimalValue_lt: "\<forall>c\<in>set ds. isDigit c \<Longrightarrow> decimalValue ds < 10 ^ length ds"
proof (induction ds rule: rev_induct)
  case Nil
  show ?case by (simp add: decimalValue_def)
next
  case (snoc c ds)
  then have "decimalValue ds < 10 ^ length ds" and "digitVal c \<le> 9"
    by (simp_all add: digitVal_le)
  then show ?case by (simp add: decimalValue_snoc)
qed

lemma pow308_lt_bound: "(10::real) ^ 308 < overflowBound"
  by (simp add: overflowBound_def)

lemma f64_small: "0 \<le> x \<Longrightarrow> x < 10 ^ 308 \<Longrightarrow> f64 x = Num x"
  using pow308_lt_bound by (simp add: f64_def)

lemma scanExponent_none:
  "r = [] \<or> (hd r \<noteq> CHR ''e'' \<and> hd r \<noteq> CHR ''E'') \<Longrightarrow> scanExponent m r = (m, r)"
  by (cases r) (auto simp: scanExponent_def)

lemma not_e_digit: "isDigit c \<or> c = CHR ''.'' \<or> c = CHR ''-'' \<Longrightarrow> c \<noteq> CHR ''e'' \<and> c \<noteq> CHR ''E'' \<and> c \<noteq> CHR ''I'' \<and> \<not> isWhiteSpace c"
  by (auto simp: isDigit_def isWhiteSpace_def)

lemma digits_value_small:
  assumes "length ds \<le> 308" and "\<forall>c\<in>set ds. isDigit c"
  shows "real (decimalValue ds) + 1 \<le> 10 ^ 308"
proof -
  have "decimalValue ds + 1 \<le> 10 ^ length ds"
    using decimalValue_lt [OF assms(2)] by simp
  also have "(10::nat) ^ length ds \<le> 10 ^ 308"
    using assms(1) by (intro power_increasing) simp_all
  finally have "decimalValue ds + 1 \<le> (10::nat) ^ 308" .
  then have "real (decimalValue ds + 1) \<le> real ((10::nat) ^ 308)"
    by (simp only: of_nat_le_iff)
  then show ?thesis by simp
qed

lemma fraction_lt_one:
  assumes "\<forall>c\<in>set ds. isDigit c"
  shows "real (decimalValue ds) / 10 ^ length ds < 1"
proof -
  have "real (decimalValue ds) < real ((10::nat) ^ length ds)"
    using decimalValue_lt [OF assms] by (simp only: of_nat_less_iff)
  then show ?thesis by simp
qed

lemma scanUnsigned_finite:
  assumes cl: "\<forall>c\<in>set s. isDigit c \<or> c = CHR ''.'' \<or> c = CHR ''-''"
    and len: "length s \<le> 308"
    and res: "scanUnsigned s = Some (v, r)"
  shows "isFinite v"
proof -
  let ?ip = "takeWhile isDigit s"
  let ?r1 = "dropWhile isDigit s"
  have noinf: "take 8 s \<noteq> ''Infinity''"
  proof
    assume a: "take 8 s = ''Infinity''"
    then have "s \<noteq> []" by auto
    then have "hd (take 8 s) \<in> set s" by (cases s) auto
    with a have "CHR ''I'' \<in> set s" by simp
    with cl show False using not_e_digit by blast
  qed
  have ipd: "\<forall>c\<in>set ?ip. isDigit c" by (auto dest: set_takeWhileD)
  have iplen: "length ?ip \<le> 308" using len length_takeWhile_le [of isDigit s] by linarith
  have ipv: "real (decimalValue ?ip) + 1 \<le> 10 ^ 308"
    by (rule digits_value_small [OF iplen ipd])
  have r1sub: "set ?r1 \<subseteq> set s" by (auto dest: set_dropWhileD)
  show ?thesis
  proof (cases ?r1)
    case Nil
    with res noinf have "v = f64 (real (decimalValue ?ip))"
      by (auto simp: scanUnsigned_def Let_def split: if_splits)
    moreover have "f64 (real (decimalValue ?ip)) = Num (real (decimalValue ?ip))"
      using ipv by (intro f64_small) simp_all
    ultimately show ?thesis by simp
  next
    case (Cons c r2)
    have cs: "c \<in> set s" using r1sub Cons by auto
    show ?thesis
    proof (cases "c = CHR ''.''")
      case True
      let ?fp = "takeWhile isDigit r2"
      let ?r3 = "dropWhile isDigit r2"
      let ?m = "real (decimalValue ?ip) + real (decimalValue ?fp) / 10 ^ length ?fp"
      have fpd: "\<forall>c\<in>set ?fp. isDigit c" by (auto dest: set_takeWhileD)
      have "set ?r3 \<subseteq> set r2" by (auto dest: set_dropWhileD)
      also have "set r2 \<subseteq> set s" using r1sub Cons by auto
      finally have r3sub: "set ?r3 \<subseteq> set s" .
      have "?r3 = [] \<or> (hd ?r3 \<noteq> CHR ''e'' \<and> hd ?r3 \<noteq> CHR ''E'')"
      proof (cases ?r3)
        case Nil then show ?thesis by simp
      next
        case (Cons d ds)
        then have "d \<in> set s" using r3sub by auto
        with cl not_e_digit Cons show ?thesis by auto
      qed
      then have se: "scanExponent ?m ?r3 = (?m, ?r3)" by (rule scanExponent_none)
      have "v = f64 ?m"
        using res noinf Cons True se
        by (auto simp: scanUnsigned_def Let_def split: if_splits)
      moreover have "0 \<le> ?m" by simp
      moreover have "?m < 10 ^ 308" using ipv fraction_lt_one [OF fpd] by linarith
      ultimately show ?thesis by (simp add: f64_small)
    next
      case False
      have "c \<noteq> CHR ''e'' \<and> c \<noteq> CHR ''E''" using cs cl not_e_digit by blast
      then have se: "scanExponent (real (decimalValue ?ip)) ?r1 = (real (decimalValue ?ip), ?r1)"
        using Cons by (intro scanExponent_none) simp
      have "v = f64 (real (decimalValue ?ip))"
        using res noinf Cons False se
        by (auto simp: scanUnsigned_def Let_def split: if_splits)
      moreover have "f64 (real (decimalValue ?ip)) = Num (real (decimalValue ?ip))"
        using ipv by (intro f64_small) simp_all
      ultimately show ?thesis by simp
    qed
  qed
qed

lemma isFinite_jneg: "isFinite (jneg v) = isFinite v"
  by (cases v) simp_all

lemma scanDecimal_finite:
  assumes cl: "\<forall>c\<in>set s. isDigit c \<or> c = CHR ''.'' \<or> c = CHR ''-''"
    and len: "length s \<le> 308"
    and res: "scanDecimal s = Some (v, r)"
  shows "isFinite v"
proof (cases s)
  case Nil
  with res show ?thesis by (simp add: scanDecimal_def)
next
  case (Cons c t)
  have tcl: "\<forall>c\<in>set t. isDigit c \<or> c = CHR ''.'' \<or> c = CHR ''-''" using cl Cons by simp
  have tlen: "length t \<le> 308" using len Cons by simp
  show ?thesis
  proof (cases "c = CHR ''-''")
    case True
    with res Cons obtain w where "scanUnsigned t = Some (w, r)" and "v = jneg w"
      by (auto simp: scanDecimal_def)
    then show ?thesis using scanUnsigned_finite [OF tcl tlen] by (simp add: isFinite_jneg)
  next
    case False
    show ?thesis
    proof (cases "c = CHR ''+''")
      case True
      with res Cons False have "scanUnsigned t = Some (v, r)" by (simp add: scanDecimal_def)
      then show ?thesis by (rule scanUnsigned_finite [OF tcl tlen])
    next
      case plus: False
      with res Cons False have "scanUnsigned s = Some (v, r)" by (simp add: scanDecimal_def)
      then show ?thesis by (rule scanUnsigned_finite [OF cl len])
    qed
  qed
qed

lemma parseFloat_finite:
  assumes cl: "\<forall>c\<in>set s. isDigit c \<or> c = CHR ''.'' \<or> c = CHR ''-''"
    and len: "length s \<le> 308"
  shows "parseFloat s = NaN \<or> isFinite (parseFloat s)"
proof -
  have "\<forall>c\<in>set s. \<not> isWhiteSpace c" using cl not_e_digit by blast
  then have "dropWhile isWhiteSpace s = s" by (simp add: dropWhile_eq_self_iff hd_in_set)
  then show ?thesis
    using scanDecimal_finite [OF cl len]
    by (auto simp: parseFloat_def split: option.splits)
qed


lemma parseCurrency_text:
  assumes "\<not> isNumber v" and "toStringJS (numToString h) v = Inr str"
  shows "parseCurrency h v =
     Inr (if isNaN (parseFloat (stripNonNumeric str)) then Num 0
          else parseFloat (stripNonNumeric str))"
proof (cases "v = JStr ''''")
  case True
  with assms(2) have "str = ''''" by simp
  then have "parseFloat (stripNonNumeric str) = NaN"
    by (simp add: stripNonNumeric_def parseFloat_def scanDecimal_def)
  with True show ?thesis by (simp add: parseCurrency_def)
next
  case False
  with assms show ?thesis
    by (cases v) (simp_all add: parseCurrency_def bindE_def Let_def)
qed

lemma parseCurrency_throws_iff:
  "(\<exists>e. parseCurrency h v = Inl e)
     \<longleftrightarrow> isObject v \<and> toStringJS (numToString h) v = Inl TypeError"
proof (cases "toStringJS (numToString h) v")
  case (Inl e)
  then have e: "e = TypeError" by (rule toStringJS_error)
  show ?thesis
  proof (cases "isObject v")
    case True
    with Inl e show ?thesis by (cases v) (simp_all add: parseCurrency_def bindE_def)
  next
    case False
    with Inl have "v = JNull \<or> v = JUndefined" by (cases v) simp_all
    with False show ?thesis by (auto simp: parseCurrency_def)
  qed
next
  case (Inr str)
  then show ?thesis
    by (cases v) (simp_all add: parseCurrency_def bindE_def Let_def)
qed

lemma parseCurrency_error: "parseCurrency h v = Inl e \<Longrightarrow> e = TypeError"
  by (cases v)
     (auto simp: parseCurrency_def bindE_def Let_def split: if_splits sum.splits
           dest: toStringJS_error joinElems_error)

lemma parseCurrency_not_NaN:
  assumes "\<not> isNumber v" and "parseCurrency h v = Inr m"
  shows "\<not> isNaN m"
proof (cases "toStringJS (numToString h) v")
  case (Inl e)
  then have "v = JNull \<or> v = JUndefined \<or> isObject v" by (cases v) simp_all
  then show ?thesis
  proof (elim disjE)
    assume "isObject v"
    with Inl have "\<exists>e. parseCurrency h v = Inl e"
      using toStringJS_error [OF Inl] by (simp add: parseCurrency_throws_iff)
    with assms(2) show ?thesis by simp
  qed (use assms(2) in \<open>auto simp: parseCurrency_def\<close>)
next
  case (Inr str)
  from parseCurrency_text [OF assms(1) Inr] assms(2)
  show ?thesis by (cases "parseFloat (stripNonNumeric str)") auto
qed

lemma parseCurrency_short_text:
  assumes "\<not> isNumber v" and "toStringJS (numToString h) v = Inr str"
    and "length (stripNonNumeric str) \<le> 308"
  shows "\<exists>x. parseCurrency h v = Inr (Num x)"
proof -
  have "parseFloat (stripNonNumeric str) = NaN \<or> isFinite (parseFloat (stripNonNumeric str))"
    using stripNonNumeric_chars assms(3) by (intro parseFloat_finite) blast+
  then show ?thesis
    unfolding parseCurrency_text [OF assms(1,2)]
    by (cases "parseFloat (stripNonNumeric str)") auto
qed

text \<open>
  C2 (amended). The parser returns 0 for \<open>null\<close>, \<open>undefined\<close> and the empty string,
  and a number as it is, so the result for a number is finite exactly when the number is:
  NaN and the infinities come back unchanged. For \<open>undefined\<close>, \<open>null\<close>, a boolean, a
  number or a string it returns without throwing. For a value that is not a number and
  whose \<open>toString()\<close> gives a text, the result is the number read from the stripped
  text, or 0 when none can be read: it is never NaN, and it is finite when the stripped
  text has at most 308 characters.
\<close>

theorem parseCurrency_behaviour:
  "parseCurrency h JNull = Inr (Num 0)
   \<and> parseCurrency h JUndefined = Inr (Num 0)
   \<and> parseCurrency h (JStr '''') = Inr (Num 0)
   \<and> parseCurrency h (JNum n) = Inr n
   \<and> (\<not> isObject v \<longrightarrow> (\<exists>k. parseCurrency h v = Inr k))
   \<and> (\<not> isNumber v \<and> parseCurrency h v = Inr m \<longrightarrow> \<not> isNaN m)
   \<and> (\<not> isNumber v \<and> toStringJS (numToString h) v = Inr str \<longrightarrow>
        parseCurrency h v =
          Inr (if isNaN (parseFloat (stripNonNumeric str)) then Num 0
               else parseFloat (stripNonNumeric str))
        \<and> (length (stripNonNumeric str) \<le> 308 \<longrightarrow> (\<exists>x. parseCurrency h v = Inr (Num x))))"
proof -
  have a: "parseCurrency h JNull = Inr (Num 0)" "parseCurrency h JUndefined = Inr (Num 0)"
    "parseCurrency h (JStr '''') = Inr (Num 0)" "parseCurrency h (JNum n) = Inr n"
    by (simp_all add: parseCurrency_def)
  have b: "\<exists>k. parseCurrency h v = Inr k" if "\<not> isObject v"
  proof -
    have "\<not> (\<exists>e. parseCurrency h v = Inl e)"
      using that by (simp only: parseCurrency_throws_iff) simp
    then show ?thesis by (cases "parseCurrency h v") auto
  qed
  show ?thesis
    using a b parseCurrency_not_NaN [of v h m]
      parseCurrency_text [of v h str] parseCurrency_short_text [of v h str]
    by blast
qed

theorem parseCurrency_behaviour_witness:
  "parseCurrency (exampleHost (1/2)) (JStr ''$1,250.00'') = Inr (Num 1250)
   \<and> parseCurrency (exampleHost (1/2)) (JStr ''abc'') = Inr (Num 0)
   \<and> parseCurrency (exampleHost (1/2)) (JBool True) = Inr (Num 0)"
  using parseCurrency_behaviour [of "exampleHost (1/2)" NaN "JStr ''$1,250.00''"
      NaN "''$1,250.00''"]
    parseCurrency_behaviour [of "exampleHost (1/2)" NaN "JStr ''abc''" NaN "''abc''"]
    parseCurrency_behaviour [of "exampleHost (1/2)" NaN "JBool True" NaN "''true''"]
  by (simp add: parseCurrency_def bindE_def stripNonNumeric_def isDigit_def parseFloat_def
      isWhiteSpace_def scanDecimal_def scanUnsigned_def decimalValue_def digitVal_def
      scanExponent_def f64_def overflowBound_def)

text \<open>
  The claim of C2 fails for a number that is not finite: \<open>JSON.parse\<close> reads the
  literal \<open>1e999\<close> as \<open>Infinity\<close>, and the parser returns it.
\<close>

theorem parseCurrency_infinite:
  "parseCurrency (exampleHost (1/2)) (JNum PInf) = Inr PInf \<and> \<not> isFinite PInf"
  by (simp add: parseCurrency_def)

text \<open>
  Past 308 characters the bound is lost: 309 or more nines are read as \<open>Infinity\<close>.
\<close>

lemma decimalValue_nines: "real (decimalValue (replicate n (CHR ''9''))) = 10 ^ n - 1"
proof (induction n)
  case 0
  show ?case by (simp add: decimalValue_def)
next
  case (Suc n)
  have "replicate (Suc n) (CHR ''9'') = replicate n (CHR ''9'') @ [CHR ''9'']"
    by (simp add: replicate_append_same)
  then have "decimalValue (replicate (Suc n) (CHR ''9''))
      = 10 * decimalValue (replicate n (CHR ''9'')) + 9"
    by (simp only: decimalValue_snoc) (simp add: digitVal_def)
  then show ?case using Suc by simp
qed

lemma parseCurrency_overflow:
  assumes "309 \<le> n"
  shows "parseCurrency h (JStr (replicate n (CHR ''9''))) = Inr PInf"
proof -
  let ?s = "replicate n (CHR ''9'')"
  have ne: "?s \<noteq> []" using assms by auto
  have hd9: "hd ?s = CHR ''9''" using ne by (simp add: hd_replicate)
  have ni: "take 8 ?s \<noteq> ''Infinity''"
  proof
    assume "take 8 ?s = ''Infinity''"
    then have "hd (take 8 ?s) = CHR ''I''" by simp
    then show False using hd9 ne by simp
  qed
  have "(10::real) ^ 309 \<le> 10 ^ n" using assms by (intro power_increasing) simp_all
  moreover have "overflowBound \<le> (10::real) ^ 309 - 1" by (simp add: overflowBound_def)
  ultimately have "overflowBound \<le> (10::real) ^ n - 1" by linarith
  then have "f64 (real (decimalValue ?s)) = PInf"
    by (simp only: decimalValue_nines) (simp add: f64_def)
  then have "scanUnsigned ?s = Some (PInf, [])"
    using ni ne by (simp add: scanUnsigned_def Let_def isDigit_def)
  moreover obtain t where "?s = CHR ''9'' # t" using ne hd9 by (cases ?s) auto
  ultimately have "scanDecimal ?s = Some (PInf, [])"
    by (simp add: scanDecimal_def)
  then have "parseFloat ?s = PInf" by (simp add: parseFloat_def isWhiteSpace_def)
  then show ?thesis
    using ne by (simp add: parseCurrency_def bindE_def stripNonNumeric_def isDigit_def Let_def)
qed

section \<open>Properties of the record normalizer\<close>

lemma parseCurrency_absent: "parseCurrency h JUndefined = Inr (Num 0)"
  by (simp add: parseCurrency_def)

lemma normalize_JObj_Inr:
  assumes "normalize h (JObj kvs) i = (Inr r, j)"
  shows "parseCurrency h (field kvs ''Potential Revenue'') = Inr (potentialRevenue r)
    \<and> parseCurrency h (field kvs ''Invoice Amount'') = Inr (invoiceAmount r)
    \<and> parseCurrency h (field kvs ''Dollars Collected'') = Inr (dollarsCollected r)
    \<and> parseCurrency h (field kvs ''Expense Incurred'') = Inr (expenseIncurred r)
    \<and> (if field kvs ''Net Revenue'' \<noteq> JNull
        then parseCurrency h (field kvs ''Net Revenue'') = Inr (netRevenue r)
        else netRevenue r = jsub (dollarsCollected r) (expenseIncurred r))
    \<and> id_field r =
        (let a = orJS (orJS (field kvs ''Opportunity ID'') (field kvs ''id'')) (field kvs ''key'')
         in if truthy a then a else JStr (randomId h i))
    \<and> j = (if truthy (orJS (orJS (field kvs ''Opportunity ID'') (field kvs ''id''))
                        (field kvs ''key'')) then i else i + 1)
    \<and> name r = orJS (orJS (field kvs ''Name'') (field kvs ''name'')) (JStr ''Unknown Entity'')
    \<and> monthYear r
        = orJS (orJS (field kvs ''MM/YYYY'') (field kvs ''monthYear'')) (JStr ''01/2024'')"
  using assms unfolding normalize_def field_def bindE_def Let_def
  by (auto split: sum.splits if_splits)

text \<open>
  C1 (the code departs from it). The net revenue is taken from the payload unless the
  field is \<open>null\<close>: the test is \<open>!== null\<close>, which an absent field passes, and the
  parser turns the absent value into 0. For a payload with 50 collected, 10 spent and no
  net-revenue field the record has net revenue 0, where the claim has 50 - 10.
\<close>

theorem normalize_missing_net:
  "normalize h (JObj [(''Dollars Collected'', JStr ''50''), (''Expense Incurred'', JStr ''10'')]) i
   = (Inr \<lparr>id_field = JStr (randomId h i), name = JStr ''Unknown Entity'',
           potentialRevenue = Num 0, invoiceAmount = Num 0, dollarsCollected = Num 50,
           expenseIncurred = Num 10, netRevenue = Num 0, monthYear = JStr ''01/2024''\<rparr>, i + 1)"
  by (simp add: normalize_def orJS_def parse_defs)

lemma normalize_null_net:
  "normalize h (JObj [(''Dollars Collected'', JStr ''50''), (''Expense Incurred'', JStr ''10''), (''Net Revenue'', JNull)]) i
   = (Inr \<lparr>id_field = JStr (randomId h i), name = JStr ''Unknown Entity'',
           potentialRevenue = Num 0, invoiceAmount = Num 0, dollarsCollected = Num 50,
           expenseIncurred = Num 10, netRevenue = Num 40, monthYear = JStr ''01/2024''\<rparr>, i + 1)"
  by (simp add: normalize_def orJS_def jsub_def parse_defs)

text \<open>
  The empty object normalizes to the name \<open>Unknown Entity\<close>, the month \<open>01/2024\<close>,
  every amount 0 and, with one draw, the id that the draw gives.
\<close>

lemma normalize_empty:
  "normalize h (JObj []) i
   = (Inr \<lparr>id_field = JStr (randomId h i), name = JStr ''Unknown Entity'',
           potentialRevenue = Num 0, invoiceAmount = Num 0, dollarsCollected = Num 0,
           expenseIncurred = Num 0, netRevenue = Num 0, monthYear = JStr ''01/2024''\<rparr>, i + 1)"
  by (simp add: normalize_def orJS_def parseCurrency_def bindE_def)

lemma normalize_empty_half:
  "normalize (exampleHost (1/2)) (JObj []) 0
   = (Inr \<lparr>id_field = JStr ''i'', name = JStr ''Unknown Entity'',
           potentialRevenue = Num 0, invoiceAmount = Num 0, dollarsCollected = Num 0,
           expenseIncurred = Num 0, netRevenue = Num 0, monthYear = JStr ''01/2024''\<rparr>, 1)"
  by (simp add: normalize_empty randomId_def exampleHost_def numeral_eq_Suc)

text \<open>
  C9 (the code departs from it). The id of the empty object is
  \<open>Math.random().toString(36).substr(2, 9)\<close>, the characters after \<open>0.\<close> of the draw
  in radix 36. \<open>Math.random()\<close> may return 0, whose text is \<open>0\<close>: nothing follows its
  first two characters, and the id is the empty string, where the claim has a non-empty
  one. The name, the month and the amounts are those of the claim.
\<close>

theorem normalize_empty_zero_draw:
  "normalize (exampleHost 0) (JObj []) 0
   = (Inr \<lparr>id_field = JStr '''', name = JStr ''Unknown Entity'',
           potentialRevenue = Num 0, invoiceAmount = Num 0, dollarsCollected = Num 0,
           expenseIncurred = Num 0, netRevenue = Num 0, monthYear = JStr ''01/2024''\<rparr>, 1)"
  by (simp add: normalize_def orJS_def parseCurrency_def bindE_def randomId_def exampleHost_def)

text \<open>
  For every other draw the id is not empty: the text of a positive fraction has a digit
  after \<open>0.\<close>, as the example host shows.
\<close>

lemma fracDigits36_nonempty: "x \<noteq> 0 \<Longrightarrow> 0 < n \<Longrightarrow> fracDigits36 n x \<noteq> []"
  by (cases n) simp_all

lemma exampleHost_randomId: "randomId (exampleHost u) i \<noteq> [] \<longleftrightarrow> u \<noteq> 0"
proof (cases "u = 0")
  case True
  then show ?thesis by (simp add: randomId_def exampleHost_def)
next
  case False
  then have "fracDigits36 11 u \<noteq> []" by (rule fracDigits36_nonempty) simp
  then show ?thesis using False by (simp add: randomId_def exampleHost_def)
qed

text \<open>
  The claim of C5 fails for an empty string under the first key: with \<open>Name\<close> empty and
  \<open>name\<close> set, the record takes \<open>name\<close>, where the first defined value is the empty
  string.
\<close>

theorem alias_empty_name_skipped:
  "map_sum id name (fst (normalize (exampleHost (1/2))
       (JObj [(''Name'', JStr ''''), (''name'', JStr ''Bob'')]) 0)) = Inr (JStr ''Bob'')
   \<and> firstDefined [JStr '''', JStr ''Bob''] = Some (JStr '''')"
  by (simp add: normalize_def orJS_def parseCurrency_def bindE_def firstDefined_def isDefined_def)

text \<open>
  C5 (amended). For an object that the normalizer accepts, the id is the first truthy
  value among the keys \<open>Opportunity ID\<close>, \<open>id\<close>, \<open>key\<close>, and a random identifier
  (one more draw) when none is truthy; the name is the first truthy value among
  \<open>Name\<close>, \<open>name\<close>, and \<open>Unknown Entity\<close> when none is. A defined value that is falsy
  (the empty string, 0, \<open>null\<close>, \<open>false\<close>, NaN) is passed over.
\<close>

theorem alias_first_truthy:
  assumes "normalize h (JObj kvs) i = (Inr r, j)"
  shows "id_field r =
      (case find truthy [field kvs ''Opportunity ID'', field kvs ''id'', field kvs ''key''] of
         Some v \<Rightarrow> v | None \<Rightarrow> JStr (randomId h i))
    \<and> j = (if find truthy [field kvs ''Opportunity ID'', field kvs ''id'', field kvs ''key'']
              = None then i + 1 else i)
    \<and> name r =
      (case find truthy [field kvs ''Name'', field kvs ''name''] of
         Some v \<Rightarrow> v | None \<Rightarrow> JStr ''Unknown Entity'')"
  using normalize_JObj_Inr [OF assms] by (simp add: orJS_def Let_def)

theorem alias_first_truthy_witness:
  "normalize (exampleHost (1/2))
     (JObj [(''Name'', JStr ''''), (''name'', JStr ''Bob''), (''id'', JStr ''x7'')]) 0
   = (Inr \<lparr>id_field = JStr ''x7'', name = JStr ''Bob'',
           potentialRevenue = Num 0, invoiceAmount = Num 0, dollarsCollected = Num 0,
           expenseIncurred = Num 0, netRevenue = Num 0, monthYear = JStr ''01/2024''\<rparr>, 0)
   \<and> find truthy [JUndefined, JStr ''x7'', JUndefined] = Some (JStr ''x7'')"
proof -
  have n: "normalize (exampleHost (1/2))
     (JObj [(''Name'', JStr ''''), (''name'', JStr ''Bob''), (''id'', JStr ''x7'')]) 0
   = (Inr \<lparr>id_field = JStr ''x7'', name = JStr ''Bob'',
           potentialRevenue = Num 0, invoiceAmount = Num 0, dollarsCollected = Num 0,
           expenseIncurred = Num 0, netRevenue = Num 0, monthYear = JStr ''01/2024''\<rparr>, 0)"
    by (simp add: normalize_def orJS_def parseCurrency_def bindE_def)
  from alias_first_truthy [OF n] n show ?thesis by (simp add: field_def)
qed

section \<open>Properties of the data loader\<close>

lemma generateMockData_size:
  "length (fst (generateMockData h i)) = 25 \<and> snd (generateMockData h i) = i + 100"
  by (simp add: generateMockData_def)

lemma normalize_throw_any_count:
  "(\<exists>r. fst (normalize h item i) = Inr r) = normalizes h item"
  by (simp add: normalizes_def normalize_def split: sum.splits prod.splits)

lemma normalizeAll_Inr:
  "normalizeAll h items i = (Inr rs, j) \<Longrightarrow>
     list_all2 (\<lambda>item r. \<exists>k. fst (normalize h item k) = Inr r) items rs"
proof (induction items arbitrary: rs i)
  case Nil
  then show ?case by simp
next
  case (Cons item items)
  from Cons.prems obtain r k rs' where
    n: "normalize h item i = (Inr r, k)" and
    ns: "normalizeAll h items k = (Inr rs', j)" and rs: "rs = r # rs'"
    by (auto split: prod.splits sum.splits)
  have "fst (normalize h item i) = Inr r" using n by simp
  then have "\<exists>k. fst (normalize h item k) = Inr r" by blast
  with Cons.IH [OF ns] rs show ?case by simp
qed

lemma normalizeAll_succeeds:
  "list_all (normalizes h) items \<Longrightarrow> \<exists>rs j. normalizeAll h items i = (Inr rs, j)"
proof (induction items arbitrary: i)
  case Nil
  then show ?case by simp
next
  case (Cons item items)
  then have "normalizes h item" by simp
  then obtain r where "fst (normalize h item i) = Inr r"
    using normalize_throw_any_count [of h item i] by blast
  then obtain k where n: "normalize h item i = (Inr r, k)" by (cases "normalize h item i") simp
  from Cons obtain rs j where "normalizeAll h items k = (Inr rs, j)" by fastforce
  with n show ?case by simp
qed

lemma normalizeAll_fails:
  "\<not> list_all (normalizes h) items \<Longrightarrow> \<exists>e j. normalizeAll h items i = (Inl e, j)"
proof (induction items arbitrary: i)
  case Nil
  then show ?case by simp
next
  case (Cons item items)
  show ?case
  proof (cases "normalizes h item")
    case False
    then have "\<not> (\<exists>r. fst (normalize h item i) = Inr r)"
      by (simp add: normalize_throw_any_count)
    then obtain e k where "normalize h item i = (Inl e, k)"
      by (cases "normalize h item i"; cases "fst (normalize h item i)") auto
    then show ?thesis by simp
  next
    case True
    then obtain r where "fst (normalize h item i) = Inr r"
      using normalize_throw_any_count [of h item i] by blast
    then obtain k where n: "normalize h item i = (Inr r, k)" by (cases "normalize h item i") simp
    from True Cons.prems have "\<not> list_all (normalizes h) items" by simp
    from Cons.IH [OF this] obtain e j where "normalizeAll h items k = (Inl e, j)" by blast
    with n show ?thesis by simp
  qed
qed

lemma fetchData_failure:
  assumes "tryBlock h outcome i = (Inl e, j)"
  shows "fetchData h outcome (st, i)
    = (st\<lparr>status := SUCCESS, rawData := fst (generateMockData h j), usingMockData := True\<rparr>,
       j + 100)"
  using assms generateMockData_size [of h j]
  by (cases "generateMockData h j") (simp add: fetchData_def Let_def)

lemma fetchData_success:
  assumes "tryBlock h outcome i = (Inr rs, j)"
  shows "fetchData h outcome (st, i)
    = (st\<lparr>status := SUCCESS, rawData := rs, usingMockData := False\<rparr>, j)"
  using assms by (simp add: fetchData_def Let_def)

text \<open>
  C4 (amended). The loader always ends in \<open>SUCCESS\<close>. When the fetch is rejected, the
  response is not ok, the body is not JSON, the collection is empty or the normalizer
  throws on one of its elements, the records are the 25 of the mock generator and
  \<open>usingMockData\<close> is set. When the response is ok and its collection is not empty and
  the normalizer accepts every element, the records are those elements normalized, in
  order, and \<open>usingMockData\<close> is not set.
\<close>

theorem fetchData_outcomes:
  "status (fst (fetchData h outcome (st, i))) = SUCCESS
   \<and> (outcome = Inl e
       \<or> (outcome = Inr resp
           \<and> (\<not> ok resp \<or> json resp = Inl e
               \<or> (json resp = Inr data
                   \<and> (dataArrayOf data = [] \<or> \<not> list_all (normalizes h) (dataArrayOf data)))))
       \<longrightarrow> usingMockData (fst (fetchData h outcome (st, i)))
           \<and> length (rawData (fst (fetchData h outcome (st, i)))) = 25
           \<and> rawData (fst (fetchData h outcome (st, i)))
               = fst (generateMockData h (snd (tryBlock h outcome i))))
   \<and> (outcome = Inr resp \<and> ok resp \<and> json resp = Inr data \<and> dataArrayOf data \<noteq> []
         \<and> list_all (normalizes h) (dataArrayOf data)
       \<longrightarrow> \<not> usingMockData (fst (fetchData h outcome (st, i)))
           \<and> fst (normalizeAll h (dataArrayOf data) i)
               = Inr (rawData (fst (fetchData h outcome (st, i))))
           \<and> list_all2 (\<lambda>item r. \<exists>k. fst (normalize h item k) = Inr r)
               (dataArrayOf data) (rawData (fst (fetchData h outcome (st, i)))))"
proof -
  have s: "status (fst (fetchData h outcome (st, i))) = SUCCESS"
    by (cases "tryBlock h outcome i"; cases "fst (tryBlock h outcome i)")
       (simp_all add: fetchData_failure fetchData_success)
  have f: "usingMockData (fst (fetchData h outcome (st, i)))
           \<and> length (rawData (fst (fetchData h outcome (st, i)))) = 25
           \<and> rawData (fst (fetchData h outcome (st, i)))
               = fst (generateMockData h (snd (tryBlock h outcome i)))"
    if "\<exists>e j. tryBlock h outcome i = (Inl e, j)"
  proof -
    from that obtain e' j where t: "tryBlock h outcome i = (Inl e', j)" by blast
    show ?thesis
      using generateMockData_size [of h j]
      by (simp add: fetchData_failure [OF t] t)
  qed
  have t1: "\<exists>e j. tryBlock h outcome i = (Inl e, j)"
    if "outcome = Inl e
       \<or> (outcome = Inr resp
           \<and> (\<not> ok resp \<or> json resp = Inl e
               \<or> (json resp = Inr data
                   \<and> (dataArrayOf data = [] \<or> \<not> list_all (normalizes h) (dataArrayOf data)))))"
    using that normalizeAll_fails [of h "dataArrayOf data" i]
    by (auto simp: tryBlock_def Let_def)
  have t2: "\<not> usingMockData (fst (fetchData h outcome (st, i)))
           \<and> fst (normalizeAll h (dataArrayOf data) i)
               = Inr (rawData (fst (fetchData h outcome (st, i))))
           \<and> list_all2 (\<lambda>item r. \<exists>k. fst (normalize h item k) = Inr r)
               (dataArrayOf data) (rawData (fst (fetchData h outcome (st, i))))"
    if a: "outcome = Inr resp \<and> ok resp \<and> json resp = Inr data \<and> dataArrayOf data \<noteq> []
         \<and> list_all (normalizes h) (dataArrayOf data)"
  proof -
    from a normalizeAll_succeeds [of h "dataArrayOf data" i]
    obtain rs j where n: "normalizeAll h (dataArrayOf data) i = (Inr rs, j)" by blast
    with a have t: "tryBlock h outcome i = (Inr rs, j)"
      by (simp add: tryBlock_def Let_def)
    show ?thesis
      using normalizeAll_Inr [OF n] by (simp add: fetchData_success [OF t] n)
  qed
  from s f t1 t2 show ?thesis by blast
qed

text \<open>
  The claim of C4 fails for a successful response with the non-empty collection
  \<open>[null]\<close>: reading a property of \<open>null\<close> throws, and the loader falls back to the
  mock data.
\<close>

theorem fetchData_null_element:
  "usingMockData (fst (fetchData (exampleHost (1/2))
      (Inr \<lparr>ok = True, statusCode = 200, json = Inr (JArr [JNull])\<rparr>) (initialState, 0)))
   \<and> length (dataArrayOf (JArr [JNull])) = 1"
proof -
  have "tryBlock (exampleHost (1/2))
      (Inr \<lparr>ok = True, statusCode = 200, json = Inr (JArr [JNull])\<rparr>) 0 = (Inl TypeError, 0)"
    by (simp add: tryBlock_def dataArrayOf_def normalize_def bindE_def)
  then show ?thesis by (simp add: fetchData_failure dataArrayOf_def)
qed

theorem fetchData_outcomes_witness:
  "usingMockData (fst (fetchData (exampleHost (1/2))
      (Inr \<lparr>ok = True, statusCode = 200, json = Inr (JArr [])\<rparr>) (initialState, 0)))
   \<and> length (rawData (fst (fetchData (exampleHost (1/2))
      (Inr \<lparr>ok = True, statusCode = 200, json = Inr (JArr [])\<rparr>) (initialState, 0)))) = 25
   \<and> status (fst (fetchData (exampleHost (1/2))
      (Inr \<lparr>ok = True, statusCode = 200, json = Inr (JArr [])\<rparr>) (initialState, 0))) = SUCCESS
   \<and> \<not> usingMockData (fst (fetchData (exampleHost (1/2))
      (Inr \<lparr>ok = True, statusCode = 200, json = Inr (JArr [JObj []])\<rparr>) (initialState, 0)))"
proof -
  have e: "dataArrayOf (JArr []) = []" by (simp add: dataArrayOf_def)
  have n: "dataArrayOf (JArr [JObj []]) \<noteq> []
      \<and> list_all (normalizes (exampleHost (1/2))) (dataArrayOf (JArr [JObj []]))"
    by (simp add: dataArrayOf_def normalizes_def normalize_def bindE_def parseCurrency_def)
  have a: "usingMockData (fst (fetchData (exampleHost (1/2))
      (Inr \<lparr>ok = True, statusCode = 200, json = Inr (JArr [])\<rparr>) (initialState, 0)))
   \<and> length (rawData (fst (fetchData (exampleHost (1/2))
      (Inr \<lparr>ok = True, statusCode = 200, json = Inr (JArr [])\<rparr>) (initialState, 0)))) = 25
   \<and> status (fst (fetchData (exampleHost (1/2))
      (Inr \<lparr>ok = True, statusCode = 200, json = Inr (JArr [])\<rparr>) (initialState, 0))) = SUCCESS"
    using e fetchData_outcomes [of "exampleHost (1/2)"
      "Inr \<lparr>ok = True, statusCode = 200, json = Inr (JArr [])\<rparr>" initialState 0 TypeError
      "\<lparr>ok = True, statusCode = 200, json = Inr (JArr [])\<rparr>" "JArr []"]
    by (simp (no_asm_use)) blast
  have b: "\<not> usingMockData (fst (fetchData (exampleHost (1/2))
      (Inr \<lparr>ok = True, statusCode = 200, json = Inr (JArr [JObj []])\<rparr>) (initialState, 0)))"
    using n fetchData_outcomes [of "exampleHost (1/2)"
      "Inr \<lparr>ok = True, statusCode = 200, json = Inr (JArr [JObj []])\<rparr>" initialState 0 TypeError
      "\<lparr>ok = True, statusCode = 200, json = Inr (JArr [JObj []])\<rparr>" "JArr [JObj []]"]
    by (simp (no_asm_use)) blast
  from a b show ?thesis by simp
qed

section \<open>Properties of the derived views\<close>

lemma setOf_step:
  "set (foldl (\<lambda>acc x. if x \<in> set acc then acc else acc @ [x]) acc xs) = set acc \<union> set xs
   \<and> (distinct acc \<longrightarrow>
        distinct (foldl (\<lambda>acc x. if x \<in> set acc then acc else acc @ [x]) acc xs))"
  by (induction xs arbitrary: acc) auto

lemma set_setOf: "set (setOf xs) = set xs"
  using setOf_step [of "[]" xs] by (simp add: setOf_def)

lemma distinct_setOf: "distinct (setOf xs)"
  using setOf_step [of "[]" xs] by (simp add: setOf_def)

lemma count_list_distinct:
  "distinct xs \<Longrightarrow> count_list xs x = (if x \<in> set xs then 1 else 0)"
  by (induction xs) auto

lemma count_list_setOf: "count_list (setOf xs) x = (if x \<in> set xs then 1 else 0)"
  using count_list_distinct [OF distinct_setOf, of xs x] by (simp add: set_setOf)

lemma count_list_sort: "count_list (sort xs) x = count_list xs x"
proof -
  have "length (filter ((=) x) (sort xs)) = length (filter ((=) x) xs)"
    by (simp only: filter_sort length_sort)
  then show ?thesis by (simp only: count_list_eq_length_filter)
qed

lemma foldl_addTotals:
  "totalPotentialRevenue (foldl addTotals acc rs)
     = foldl jadd (totalPotentialRevenue acc) (map potentialRevenue rs)
   \<and> totalInvoiceAmount (foldl addTotals acc rs)
     = foldl jadd (totalInvoiceAmount acc) (map invoiceAmount rs)
   \<and> totalDollarsCollected (foldl addTotals acc rs)
     = foldl jadd (totalDollarsCollected acc) (map dollarsCollected rs)
   \<and> totalExpenseIncurred (foldl addTotals acc rs)
     = foldl jadd (totalExpenseIncurred acc) (map expenseIncurred rs)
   \<and> totalNetRevenue (foldl addTotals acc rs)
     = foldl jadd (totalNetRevenue acc) (map netRevenue rs)"
  by (induction rs arbitrary: acc) (simp_all add: addTotals_def)

lemma filteredData_All: "filteredData rs ''All'' ''All'' = rs"
  by (simp add: filteredData_def)

text \<open>
  C6. A record is in the filtered list exactly when it is in the collection and matches
  both selectors, each of which is the wildcard \<open>All\<close> or equal to the record's field;
  the filtered list is a subsequence of the collection, in its order, and no longer.
\<close>

theorem filteredData_matches:
  "(r \<in> set (filteredData rs fn fm) \<longleftrightarrow>
      r \<in> set rs \<and> (fn = ''All'' \<or> name r = fn) \<and> (fm = ''All'' \<or> monthYear r = fm))
   \<and> subseq (filteredData rs fn fm) rs
   \<and> length (filteredData rs fn fm) \<le> length rs"
  by (simp add: filteredData_def)

theorem filteredData_matches_witness:
  "sampleRecord ''Globex'' ''02/2024'' 10 5
     \<in> set (filteredData [sampleRecord ''Acme Corp'' ''01/2024'' 4 2,
                           sampleRecord ''Globex'' ''02/2024'' 10 5] ''Globex'' ''All'')
   \<and> length (filteredData [sampleRecord ''Acme Corp'' ''01/2024'' 4 2,
                            sampleRecord ''Globex'' ''02/2024'' 10 5] ''Globex'' ''All'') \<le> 2"
  using filteredData_matches [of "sampleRecord ''Globex'' ''02/2024'' 10 5"
      "[sampleRecord ''Acme Corp'' ''01/2024'' 4 2, sampleRecord ''Globex'' ''02/2024'' 10 5]"
      "''Globex''" "''All''"]
  by (simp add: sampleRecord_def)

text \<open>
  C7. Each total of the statistics is the sum, from left to right, of its amount field
  over the records given; with both selectors at the wildcard the collected total is the
  sum over the whole collection. The collection rate is collected / invoiced * 100 when
  the invoiced total is greater than 0, and 0 otherwise, so 0 when the invoiced total is 0.
\<close>

theorem stats_sums:
  "totalPotentialRevenue (stats rs) = sumJS (map potentialRevenue rs)
   \<and> totalInvoiceAmount (stats rs) = sumJS (map invoiceAmount rs)
   \<and> totalDollarsCollected (stats rs) = sumJS (map dollarsCollected rs)
   \<and> totalExpenseIncurred (stats rs) = sumJS (map expenseIncurred rs)
   \<and> totalNetRevenue (stats rs) = sumJS (map netRevenue rs)
   \<and> totalDollarsCollected (stats (filteredData recs ''All'' ''All''))
       = sumJS (map dollarsCollected recs)
   \<and> collectionRate (stats rs) =
       (if jgt (totalInvoiceAmount (stats rs)) (Num 0)
        then jmul (jdiv (totalDollarsCollected (stats rs)) (totalInvoiceAmount (stats rs)))
               (Num 100)
        else Num 0)
   \<and> (totalInvoiceAmount (stats rs) = Num 0 \<longrightarrow> collectionRate (stats rs) = Num 0)"
  using foldl_addTotals [of zeroTotals rs] foldl_addTotals [of zeroTotals recs]
  by (simp add: stats_def Let_def sumJS_def zeroTotals_def filteredData_All)

theorem stats_sums_witness:
  "totalInvoiceAmount (stats [sampleRecord ''Acme Corp'' ''01/2024'' 0 0]) = Num 0
   \<and> collectionRate (stats [sampleRecord ''Acme Corp'' ''01/2024'' 0 0]) = Num 0
   \<and> totalDollarsCollected (stats [sampleRecord ''Acme Corp'' ''01/2024'' 4 2,
                                     sampleRecord ''Globex'' ''02/2024'' 10 5]) = Num 7"
  using stats_sums [of "[sampleRecord ''Acme Corp'' ''01/2024'' 0 0]" "[]"]
    stats_sums [of "[sampleRecord ''Acme Corp'' ''01/2024'' 4 2,
                     sampleRecord ''Globex'' ''02/2024'' 10 5]" "[]"]
  by (simp add: sampleRecord_def sumJS_def f64_def overflowBound_def)

text \<open>
  C10. When some record of the collection is named \<open>All\<close>, the name options hold the
  entry \<open>All\<close> twice. The name selector \<open>All\<close> leaves the choice to the month selector
  alone (every record, when that is the wildcard too), and whatever name selector lets
  the record named \<open>All\<close> through is that wildcard: the record cannot be isolated.
\<close>

theorem all_collision:
  assumes "r \<in> set rs" and "name r = ''All''"
  shows "count_list (uniqueNames rs) ''All'' = 2
    \<and> filteredData rs ''All'' fm = filter (\<lambda>x. fm = ''All'' \<or> monthYear x = fm) rs
    \<and> filteredData rs ''All'' ''All'' = rs
    \<and> (r \<in> set (filteredData rs fn fm) \<longrightarrow> filteredData rs fn fm = filteredData rs ''All'' fm)"
proof -
  have "name r \<in> set (map name rs)" using assms(1) by simp
  then have mem: "''All'' \<in> set (map name rs)" by (simp only: assms(2))
  have "count_list (uniqueNames rs) ''All'' = count_list (''All'' # setOf (map name rs)) ''All''"
    unfolding uniqueNames_def by (rule count_list_sort)
  also have "\<dots> = 2" using mem by (simp add: count_list_setOf)
  finally have c1: "count_list (uniqueNames rs) ''All'' = 2" .
  have c2: "filteredData rs ''All'' fm = filter (\<lambda>x. fm = ''All'' \<or> monthYear x = fm) rs"
    by (simp add: filteredData_def)
  have c3: "filteredData rs ''All'' ''All'' = rs"
    by (simp add: filteredData_def)
  have c4: "r \<in> set (filteredData rs fn fm) \<longrightarrow> filteredData rs fn fm = filteredData rs ''All'' fm"
  proof
    assume "r \<in> set (filteredData rs fn fm)"
    then have "fn = ''All'' \<or> name r = fn" by (simp add: filteredData_def)
    then have "fn = ''All''" using assms(2) by metis
    then show "filteredData rs fn fm = filteredData rs ''All'' fm" by (simp only:)
  qed
  from c1 c2 c3 c4 show ?thesis by (intro conjI)
qed

theorem all_collision_witness:
  "count_list (uniqueNames [sampleRecord ''Globex'' ''02/2024'' 10 5,
                            sampleRecord ''All'' ''01/2024'' 4 2]) ''All'' = 2
   \<and> filteredData [sampleRecord ''Globex'' ''02/2024'' 10 5,
                    sampleRecord ''All'' ''01/2024'' 4 2] ''All'' ''All''
       = [sampleRecord ''Globex'' ''02/2024'' 10 5, sampleRecord ''All'' ''01/2024'' 4 2]"
  using all_collision [of "sampleRecord ''All'' ''01/2024'' 4 2"
      "[sampleRecord ''Globex'' ''02/2024'' 10 5, sampleRecord ''All'' ''01/2024'' 4 2]"
      "''All''" "''All''"]
  by (simp add: sampleRecord_def)

text \<open>
  The name options are sorted as a whole, the wildcard included; a name below \<open>All\<close>
  takes the first place.
\<close>

lemma uniqueNames_sorted:
  "sorted (uniqueNames rs) \<and> set (uniqueNames rs) = insert ''All'' (name ` set rs)"
  by (simp add: uniqueNames_def set_setOf del: sort_key_simps)

lemma uniqueNames_hd_below_All:
  assumes "r \<in> set rs" and "name r < ''All''"
  shows "hd (uniqueNames rs) \<noteq> ''All''"
proof
  assume h: "hd (uniqueNames rs) = ''All''"
  have ne: "uniqueNames rs \<noteq> []" using uniqueNames_sorted [of rs] by auto
  then obtain x xs where u: "uniqueNames rs = x # xs" by (cases "uniqueNames rs") auto
  have "name r \<in> set (uniqueNames rs)" using assms(1) uniqueNames_sorted [of rs] by auto
  moreover have "sorted (x # xs)" using uniqueNames_sorted [of rs] u by simp
  ultimately have "x \<le> name r" using u by auto
  with h u assms(2) show False by simp
qed

text \<open>
  C3 (the code departs from it). The name options are the wildcard and the distinct
  names, sorted together: the wildcard is ordered among the names and a name below
  \<open>All\<close> comes before it. For the five names of the mock data the list starts with
  \<open>Acme Corp\<close>.
\<close>

theorem uniqueNames_mock_names:
  "uniqueNames (map (\<lambda>nm. sampleRecord nm ''01/2024'' 10 5)
      [''Acme Corp'', ''Globex'', ''Soylent Corp'', ''Initech'', ''Umbrella Co''])
   = [''Acme Corp'', ''All'', ''Globex'', ''Initech'', ''Soylent Corp'', ''Umbrella Co'']"
  by (simp add: uniqueNames_def setOf_def sampleRecord_def)

section \<open>Properties of the month options\<close>

text \<open>
  A month of the form \<open>MM/YYYY\<close> decodes to the number \<open>year * 12 + month\<close>.
\<close>

lemma digit_chars: "isDigit c \<Longrightarrow> c \<noteq> CHR ''x'' \<and> c \<noteq> CHR ''X'' \<and> c \<noteq> CHR ''o'' \<and> c \<noteq> CHR ''O''
   \<and> c \<noteq> CHR ''b'' \<and> c \<noteq> CHR ''B'' \<and> c \<noteq> CHR ''-'' \<and> c \<noteq> CHR ''+'' \<and> c \<noteq> CHR ''I''
   \<and> c \<noteq> CHR ''/'' \<and> \<not> isWhiteSpace c"
  by (auto simp: isDigit_def isWhiteSpace_def)

lemma trimJS_digits:
  assumes "\<forall>c\<in>set ds. isDigit c"
  shows "trimJS ds = ds"
proof -
  have nw: "\<forall>c\<in>set ds. \<not> isWhiteSpace c" using assms digit_chars by blast
  then have a: "dropWhile isWhiteSpace ds = ds"
    by (simp add: dropWhile_eq_self_iff hd_in_set)
  have "rev ds = [] \<or> \<not> isWhiteSpace (hd (rev ds))"
  proof (cases "ds = []")
    case False
    then have "last ds \<in> set ds" by (rule last_in_set)
    with nw False show ?thesis by (simp add: hd_rev)
  qed simp
  then have "dropWhile isWhiteSpace (rev ds) = rev ds"
    by (simp only: dropWhile_eq_self_iff)
  with a show ?thesis by (simp add: trimJS_def)
qed

lemma take2_digits:
  assumes "\<forall>c\<in>set ds. isDigit c"
  shows "take 2 ds \<noteq> [CHR ''0'', k] \<or> isDigit k"
proof (cases "take 2 ds = [CHR ''0'', k]")
  case True
  then have "k \<in> set (take 2 ds)" by simp
  then have "k \<in> set ds" by (rule in_set_takeD)
  with assms show ?thesis by blast
qed simp

lemma toNumber_digits:
  assumes ne: "ds \<noteq> []" and dg: "\<forall>c\<in>set ds. isDigit c" and len: "length ds \<le> 308"
  shows "toNumber ds = Num (real (decimalValue ds))"
proof -
  obtain c t where ds: "ds = c # t" using ne by (cases ds) auto
  have c: "isDigit c" using dg ds by simp
  have nopre: "take 2 ds \<noteq> ''0x''" "take 2 ds \<noteq> ''0X''" "take 2 ds \<noteq> ''0o''"
    "take 2 ds \<noteq> ''0O''" "take 2 ds \<noteq> ''0b''" "take 2 ds \<noteq> ''0B''"
    using take2_digits [OF dg] digit_chars by blast+
  have tw: "takeWhile isDigit ds = ds" "dropWhile isDigit ds = []"
    using dg by simp_all
  have "take 8 ds \<noteq> ''Infinity''"
  proof
    assume "take 8 ds = ''Infinity''"
    then have "c = CHR ''I''" using ds by simp
    with c digit_chars show False by blast
  qed
  then have "scanUnsigned ds = Some (f64 (real (decimalValue ds)), [])"
    using ne by (simp add: scanUnsigned_def Let_def tw)
  moreover have "c \<noteq> CHR ''-''" "c \<noteq> CHR ''+''" using c digit_chars by blast+
  ultimately have "scanDecimal ds = Some (f64 (real (decimalValue ds)), [])"
    using ds by (simp add: scanDecimal_def)
  moreover have "f64 (real (decimalValue ds)) = Num (real (decimalValue ds))"
    using digits_value_small [OF len dg] by (intro f64_small) simp_all
  ultimately show ?thesis
    using nopre ne by (simp add: toNumber_def trimJS_digits [OF dg] Let_def)
qed

lemma splitOn_none: "c \<notin> set s \<Longrightarrow> splitOn c s = [s]"
  by (induction s) auto

lemma splitOn_first: "c \<notin> set m \<Longrightarrow> splitOn c (m @ c # r) = m # splitOn c r"
  by (induction m) auto

lemma monthKey_format:
  assumes "m \<noteq> []" and "y \<noteq> []" and "\<forall>c\<in>set m. isDigit c" and "\<forall>c\<in>set y. isDigit c"
    and "length m \<le> 2" and "length y \<le> 4"
  shows "monthKey (m @ ''/'' @ y) = Num (real (decimalValue y) * 12 + real (decimalValue m))"
proof -
  have "CHR ''/'' \<notin> set m" "CHR ''/'' \<notin> set y" using assms(3,4) digit_chars by blast+
  then have sp: "splitOn (CHR ''/'') (m @ CHR ''/'' # y) = [m, y]"
    by (simp add: splitOn_first splitOn_none)
  have tm: "toNumber m = Num (real (decimalValue m))"
    using assms by (intro toNumber_digits) simp_all
  have ty: "toNumber y = Num (real (decimalValue y))"
    using assms by (intro toNumber_digits) simp_all
  have "decimalValue m < 10 ^ length m" "decimalValue y < 10 ^ length y"
    using assms decimalValue_lt by blast+
  moreover have "(10::nat) ^ length m \<le> 10 ^ 2" "(10::nat) ^ length y \<le> 10 ^ 4"
    using assms by (intro power_increasing; simp)+
  ultimately have b: "decimalValue m < 100" "decimalValue y < 10000" by simp_all
  have big: "(130000::real) < overflowBound" by (simp add: overflowBound_def)
  have "f64 (real (decimalValue y) * 12) = Num (real (decimalValue y) * 12)"
    using b big by (simp add: f64_def)
  moreover have "f64 (real (decimalValue y) * 12 + real (decimalValue m))
      = Num (real (decimalValue y) * 12 + real (decimalValue m))"
    using b big by (simp add: f64_def)
  ultimately show ?thesis by (simp add: monthKey_def sp tm ty)
qed

text \<open>
  The sort returns the elements it was given, whatever the comparator.
\<close>

lemma mset_take_drop: "mset (take n xs) + mset (drop n xs) = mset xs"
  by (metis append_take_drop_id mset_append)

lemma mset_insertPivot: "mset (insertPivot cmp work p) = add_mset p (mset work)"
  by (simp add: insertPivot_def Let_def mset_take_drop)

lemma mset_binaryInsertionSort:
  "mset (binaryInsertionSort cmp run rest) = mset run + mset rest"
  unfolding binaryInsertionSort_def
  by (induction rest arbitrary: run) (simp_all add: mset_insertPivot)

lemma mset_countAndMakeRun: "mset (fst (countAndMakeRun cmp xs)) = mset xs"
  by (auto simp: countAndMakeRun_def Let_def mset_take_drop split: list.splits)

lemma mset_sortBy: "mset (sortBy cmp xs) = mset xs"
proof (cases "length xs < 2")
  case True
  then show ?thesis by (simp add: sortBy_def)
next
  case False
  obtain ys n where c: "countAndMakeRun cmp xs = (ys, n)" by (cases "countAndMakeRun cmp xs")
  have "mset ys = mset xs" using mset_countAndMakeRun [of cmp xs] c by simp
  then show ?thesis
    using False c by (simp add: sortBy_def mset_binaryInsertionSort mset_take_drop)
qed

lemma runAscending_le: "runAscending cmp prev rest \<le> length rest"
  by (induction rest arbitrary: prev) auto

lemma runDescending_le: "runDescending cmp prev rest \<le> length rest"
  by (induction rest arbitrary: prev) auto

lemma runAscending_sorted:
  assumes "\<forall>a\<in>S. \<forall>b\<in>S. a \<noteq> b \<longrightarrow> isNegative (cmp a b) = (k a < (k b :: real))"
    and "distinct (prev # rest)" and "set (prev # rest) \<subseteq> S"
  shows "sorted (map k (prev # take (runAscending cmp prev rest) rest))"
  using assms(2,3)
proof (induction rest arbitrary: prev)
  case Nil
  show ?case by simp
next
  case (Cons x xs)
  show ?case
  proof (cases "isNegative (cmp x prev)")
    case True
    then show ?thesis by simp
  next
    case False
    have "x \<in> S" "prev \<in> S" "x \<noteq> prev" using Cons.prems by auto
    with assms(1) False have le: "k prev \<le> k x" by auto
    have "sorted (map k (x # take (runAscending cmp x xs) xs))"
      using Cons.prems by (intro Cons.IH) auto
    with le False show ?thesis by (auto intro: order_trans)
  qed
qed

lemma runDescending_sorted:
  assumes "\<forall>a\<in>S. \<forall>b\<in>S. a \<noteq> b \<longrightarrow> isNegative (cmp a b) = (k a < (k b :: real))"
    and "distinct (prev # rest)" and "set (prev # rest) \<subseteq> S"
  shows "sorted_wrt (\<lambda>a b. k b < k a) (prev # take (runDescending cmp prev rest) rest)"
  using assms(2,3)
proof (induction rest arbitrary: prev)
  case Nil
  show ?case by simp
next
  case (Cons x xs)
  show ?case
  proof (cases "isNegative (cmp x prev)")
    case False
    then show ?thesis by simp
  next
    case True
    have "x \<in> S" "prev \<in> S" "x \<noteq> prev" using Cons.prems by auto
    with assms(1) True have lt: "k x < k prev" by auto
    have ih: "sorted_wrt (\<lambda>a b. k b < k a) (x # take (runDescending cmp x xs) xs)"
      using Cons.prems by (intro Cons.IH) auto
    then have "\<forall>y\<in>set (take (runDescending cmp x xs) xs). k y < k prev"
      using lt by auto
    with ih lt True show ?thesis by simp
  qed
qed

lemma sorted_rev_descending:
  assumes "sorted_wrt (\<lambda>a b. k b < (k a :: real)) xs"
  shows "sorted (map k (rev xs))"
proof -
  have "sorted_wrt (\<lambda>a b. k b \<le> k a) xs"
    using assms by (rule sorted_wrt_mono_rel [rotated]) simp
  then have "sorted_wrt (\<lambda>a b. k a \<le> k b) (rev xs)"
    by (simp add: sorted_wrt_rev)
  then show ?thesis by (simp add: sorted_map)
qed

lemma countAndMakeRun_sorted:
  assumes cons: "\<forall>a\<in>S. \<forall>b\<in>S. a \<noteq> b \<longrightarrow> isNegative (cmp a b) = (k a < (k b :: real))"
    and d: "distinct xs" and s: "set xs \<subseteq> S"
    and c: "countAndMakeRun cmp xs = (ys, n)"
  shows "sorted (map k (take n ys))"
proof (cases xs)
  case Nil
  with c show ?thesis by (simp add: countAndMakeRun_def)
next
  case (Cons a t)
  show ?thesis
  proof (cases t)
    case Nil
    with Cons c show ?thesis by (auto simp: countAndMakeRun_def)
  next
    case (Cons b rest)
    note xs = \<open>xs = a # t\<close> Cons
    show ?thesis
    proof (cases "isNegative (cmp b a)")
      case True
      let ?m = "runDescending cmp b rest"
      have n: "n = 2 + ?m" and ys: "ys = rev (take n xs) @ drop n xs"
        using c xs True by (auto simp: countAndMakeRun_def Let_def)
      have tk: "take n xs = a # take (runDescending cmp a (b # rest)) (b # rest)"
        using n xs True by simp
      have "n \<le> length xs" using n xs runDescending_le [of cmp b rest] by simp
      then have "take n ys = rev (take n xs)" using ys by simp
      moreover have "sorted_wrt (\<lambda>x y. k y < k x) (take n xs)"
        unfolding tk using d s xs by (intro runDescending_sorted [OF cons]) auto
      ultimately show ?thesis by (simp only: sorted_rev_descending)
    next
      case False
      let ?m = "runAscending cmp b rest"
      have n: "n = 2 + ?m" and ys: "ys = xs"
        using c xs False by (auto simp: countAndMakeRun_def Let_def)
      have tk: "take n xs = a # take (runAscending cmp a (b # rest)) (b # rest)"
        using n xs False by simp
      have "sorted (map k (take n xs))"
        unfolding tk using d s xs by (intro runAscending_sorted [OF cons]) auto
      then show ?thesis using ys by simp
    qed
  qed
qed

lemma binarySearch_bounds:
  "left \<le> right \<Longrightarrow>
     left \<le> binarySearch cmp p w left right \<and> binarySearch cmp p w left right \<le> right"
proof (induction cmp p w left right rule: binarySearch.induct)
  case (1 cmp p w left right)
  show ?case
  proof (cases "left < right")
    case False
    then show ?thesis using "1.prems" by (subst binarySearch.simps, subst binarySearch.simps) simp
  next
    case True
    let ?mid = "left + (right - left) div 2"
    have m: "left \<le> ?mid" "?mid < right" using True by auto
    show ?thesis
    proof (cases "isNegative (cmp p (w ! ?mid))")
      case neg: True
      have "left \<le> binarySearch cmp p w left ?mid \<and> binarySearch cmp p w left ?mid \<le> ?mid"
        using True neg m by (intro "1.IH"(1)) auto
      moreover have "binarySearch cmp p w left right = binarySearch cmp p w left ?mid"
        using True neg by (subst binarySearch.simps) simp
      ultimately show ?thesis using m by simp
    next
      case nonneg: False
      have "?mid + 1 \<le> binarySearch cmp p w (?mid + 1) right
          \<and> binarySearch cmp p w (?mid + 1) right \<le> right"
        using True nonneg m by (intro "1.IH"(2)) auto
      moreover have "binarySearch cmp p w left right = binarySearch cmp p w (?mid + 1) right"
        using True nonneg by (subst binarySearch.simps) simp
      ultimately show ?thesis using m by simp
    qed
  qed
qed

lemma binarySearch_pos:
  "\<not> isNegative (cmp p (w ! 0)) \<Longrightarrow> left < right \<Longrightarrow> 0 < binarySearch cmp p w left right"
proof (induction cmp p w left right rule: binarySearch.induct)
  case (1 cmp p w left right)
  let ?mid = "left + (right - left) div 2"
  have m: "left \<le> ?mid" "?mid < right" using "1.prems" by auto
  show ?case
  proof (cases "isNegative (cmp p (w ! ?mid))")
    case neg: True
    have "?mid \<noteq> 0"
    proof
      assume z: "?mid = 0"
      have "isNegative (cmp p (w ! 0))" using neg unfolding z .
      with "1.prems"(1) show False by simp
    qed
    have eq: "binarySearch cmp p w left right = binarySearch cmp p w left ?mid"
      using "1.prems" neg by (subst binarySearch.simps) simp
    show ?thesis
    proof (cases "left < ?mid")
      case True
      then have "0 < binarySearch cmp p w left ?mid"
        using "1.prems" neg by (intro "1.IH"(1)) auto
      with eq show ?thesis by simp
    next
      case False
      then have "left = ?mid" using m by simp
      then have "binarySearch cmp p w left ?mid = left"
        by (subst binarySearch.simps) simp
      with eq \<open>left = ?mid\<close> \<open>?mid \<noteq> 0\<close> show ?thesis by simp
    qed
  next
    case nonneg: False
    have eq: "binarySearch cmp p w left right = binarySearch cmp p w (?mid + 1) right"
      using "1.prems" nonneg by (subst binarySearch.simps) simp
    have "?mid + 1 \<le> binarySearch cmp p w (?mid + 1) right"
      using m binarySearch_bounds [of "?mid + 1" right cmp p w] by simp
    with eq show ?thesis by simp
  qed
qed

lemma binarySearch_correct:
  assumes cons: "\<forall>a\<in>S. \<forall>b\<in>S. a \<noteq> b \<longrightarrow> isNegative (cmp a b) = (k a < (k b :: real))"
    and srt: "sorted (map k w)" and pS: "p \<in> S" and wS: "set w \<subseteq> S" and pw: "p \<notin> set w"
  shows "left \<le> right \<Longrightarrow> right \<le> length w
    \<Longrightarrow> \<forall>i<left. k (w ! i) \<le> k p
    \<Longrightarrow> \<forall>i. right \<le> i \<and> i < length w \<longrightarrow> k p < k (w ! i)
    \<Longrightarrow> (\<forall>i<binarySearch cmp p w left right. k (w ! i) \<le> k p)
      \<and> (\<forall>i. binarySearch cmp p w left right \<le> i \<and> i < length w \<longrightarrow> k p < k (w ! i))"
  using cons srt pS wS pw
proof (induction cmp p w left right rule: binarySearch.induct)
  case (1 cmp p w left right)
  show ?case
  proof (cases "left < right")
    case False
    then have "binarySearch cmp p w left right = left"
      by (subst binarySearch.simps) simp
    moreover have "left = right" using False "1.prems"(1) by simp
    ultimately show ?thesis using "1.prems"(3,4) by simp
  next
    case True
    let ?mid = "left + (right - left) div 2"
    have m: "left \<le> ?mid" "?mid < right" using True by auto
    then have ml: "?mid < length w" using "1.prems"(2) by simp
    then have "w ! ?mid \<in> set w" by simp
    then have "w ! ?mid \<in> S" "w ! ?mid \<noteq> p" using "1.prems"(8,9) by auto
    then have neg_iff: "isNegative (cmp p (w ! ?mid)) = (k p < k (w ! ?mid))"
      using "1.prems"(5,7) by auto
    have mono: "k (w ! i) \<le> k (w ! j)" if "i \<le> j" "j < length w" for i j
      using "1.prems"(6) that sorted_nth_mono [of "map k w" i j] by simp
    show ?thesis
    proof (cases "isNegative (cmp p (w ! ?mid))")
      case neg: True
      have eq: "binarySearch cmp p w left right = binarySearch cmp p w left ?mid"
        using True neg by (subst binarySearch.simps) simp
      have up: "\<forall>i. ?mid \<le> i \<and> i < length w \<longrightarrow> k p < k (w ! i)"
      proof (intro allI impI)
        fix i assume i: "?mid \<le> i \<and> i < length w"
        then have "k (w ! ?mid) \<le> k (w ! i)" by (intro mono) simp_all
        with neg neg_iff show "k p < k (w ! i)" by simp
      qed
      have "(\<forall>i<binarySearch cmp p w left ?mid. k (w ! i) \<le> k p)
          \<and> (\<forall>i. binarySearch cmp p w left ?mid \<le> i \<and> i < length w \<longrightarrow> k p < k (w ! i))"
        using True neg m ml "1.prems"(3,5,6,7,8,9) up
        by (intro "1.IH"(1)) simp_all
      with eq show ?thesis by simp
    next
      case nonneg: False
      have eq: "binarySearch cmp p w left right = binarySearch cmp p w (?mid + 1) right"
        using True nonneg by (subst binarySearch.simps) simp
      have low: "\<forall>i<?mid + 1. k (w ! i) \<le> k p"
      proof (intro allI impI)
        fix i assume i: "i < ?mid + 1"
        then have "k (w ! i) \<le> k (w ! ?mid)" using ml by (intro mono) simp_all
        with nonneg neg_iff show "k (w ! i) \<le> k p" by simp
      qed
      have "(\<forall>i<binarySearch cmp p w (?mid + 1) right. k (w ! i) \<le> k p)
          \<and> (\<forall>i. binarySearch cmp p w (?mid + 1) right \<le> i \<and> i < length w
                \<longrightarrow> k p < k (w ! i))"
        using True nonneg m "1.prems"(2,4,5,6,7,8,9) low
        by (intro "1.IH"(2)) simp_all
      with eq show ?thesis by simp
    qed
  qed
qed

lemma insertPivot_sorted:
  assumes cons: "\<forall>a\<in>S. \<forall>b\<in>S. a \<noteq> b \<longrightarrow> isNegative (cmp a b) = (k a < (k b :: real))"
    and srt: "sorted (map k w)" and pS: "p \<in> S" and wS: "set w \<subseteq> S" and pw: "p \<notin> set w"
  shows "sorted (map k (insertPivot cmp w p))"
proof -
  let ?pos = "binarySearch cmp p w 0 (length w)"
  have bs: "(\<forall>i<?pos. k (w ! i) \<le> k p) \<and> (\<forall>i. ?pos \<le> i \<and> i < length w \<longrightarrow> k p < k (w ! i))"
    by (rule binarySearch_correct [OF cons srt pS wS pw]) simp_all
  have lo: "\<forall>x\<in>set (take ?pos w). k x \<le> k p"
  proof
    fix x assume "x \<in> set (take ?pos w)"
    then obtain i where "i < length (take ?pos w)" "x = take ?pos w ! i"
      by (auto simp: in_set_conv_nth)
    then have "i < ?pos" "x = w ! i" by simp_all
    with bs show "k x \<le> k p" by simp
  qed
  have hi: "\<forall>y\<in>set (drop ?pos w). k p < k y"
  proof
    fix y assume "y \<in> set (drop ?pos w)"
    then obtain i where "i < length (drop ?pos w)" "y = drop ?pos w ! i"
      by (auto simp: in_set_conv_nth)
    then have "?pos \<le> ?pos + i" "?pos + i < length w" "y = w ! (?pos + i)" by simp_all
    with bs show "k p < k y" by blast
  qed
  have st: "sorted (map k (take ?pos w))" "sorted (map k (drop ?pos w))"
    using srt by (simp_all add: sorted_map sorted_wrt_take sorted_wrt_drop)
  have "sorted (map k (take ?pos w) @ k p # map k (drop ?pos w))"
    using st lo hi by (fastforce simp: sorted_append)
  then show ?thesis by (simp add: insertPivot_def Let_def)
qed

lemma binaryInsertionSort_sorted:
  assumes cons: "\<forall>a\<in>S. \<forall>b\<in>S. a \<noteq> b \<longrightarrow> isNegative (cmp a b) = (k a < (k b :: real))"
  shows "sorted (map k run) \<Longrightarrow> distinct (run @ rest) \<Longrightarrow> set (run @ rest) \<subseteq> S
    \<Longrightarrow> sorted (map k (binaryInsertionSort cmp run rest))"
proof (induction rest arbitrary: run)
  case Nil
  then show ?case by (simp add: binaryInsertionSort_def)
next
  case (Cons x xs)
  have s: "sorted (map k (insertPivot cmp run x))"
    using Cons.prems by (intro insertPivot_sorted [OF cons]) auto
  have ms: "mset (insertPivot cmp run x @ xs) = mset (run @ x # xs)"
    by (simp add: mset_insertPivot)
  then have d: "distinct (insertPivot cmp run x @ xs)"
    using Cons.prems(2) mset_eq_imp_distinct_iff by blast
  have "set (insertPivot cmp run x @ xs) = set (run @ x # xs)"
    using ms by (rule mset_eq_setD)
  then have ss: "set (insertPivot cmp run x @ xs) \<subseteq> S" using Cons.prems(3) by simp
  have "sorted (map k (binaryInsertionSort cmp (insertPivot cmp run x) xs))"
    by (rule Cons.IH [OF s d ss])
  then show ?case by (simp add: binaryInsertionSort_def)
qed

lemma sortBy_sorted:
  assumes cons: "\<forall>a\<in>S. \<forall>b\<in>S. a \<noteq> b \<longrightarrow> isNegative (cmp a b) = (k a < (k b :: real))"
    and d: "distinct xs" and s: "set xs \<subseteq> S"
  shows "sorted (map k (sortBy cmp xs))"
proof (cases "length xs < 2")
  case True
  then have "xs = [] \<or> (\<exists>a. xs = [a])" by (cases xs) (auto simp: neq_Nil_conv)
  moreover have "sortBy cmp xs = xs" using True by (simp add: sortBy_def)
  ultimately show ?thesis by auto
next
  case False
  obtain ys n where c: "countAndMakeRun cmp xs = (ys, n)" by (cases "countAndMakeRun cmp xs")
  have ms: "mset ys = mset xs" using mset_countAndMakeRun [of cmp xs] c by simp
  have r: "sorted (map k (take n ys))" by (rule countAndMakeRun_sorted [OF cons d s c])
  have "distinct ys" using ms d mset_eq_imp_distinct_iff by blast
  then have d': "distinct (take n ys @ drop n ys)" by simp
  have "set ys = set xs" using ms by (rule mset_eq_setD)
  then have s': "set (take n ys @ drop n ys) \<subseteq> S" using s by simp
  have "sorted (map k (binaryInsertionSort cmp (take n ys) (drop n ys)))"
    by (rule binaryInsertionSort_sorted [OF cons r d' s'])
  then show ?thesis using False c by (simp add: sortBy_def)
qed

text \<open>
  An element that no other element is put before stays at the head of the array, whatever
  the comparator returns for the other pairs.
\<close>

lemma hd_insertPivot:
  assumes "w \<noteq> []" and "p = hd w \<or> \<not> isNegative (cmp p (hd w))"
  shows "hd (insertPivot cmp w p) = hd w"
proof (cases "binarySearch cmp p w 0 (length w) = 0")
  case True
  have "p = hd w"
  proof (rule ccontr)
    assume "p \<noteq> hd w"
    with assms have "\<not> isNegative (cmp p (w ! 0))" by (simp add: hd_conv_nth)
    then have "0 < binarySearch cmp p w 0 (length w)"
      using assms(1) by (intro binarySearch_pos) simp_all
    with True show False by simp
  qed
  with True show ?thesis by (simp add: insertPivot_def)
next
  case False
  then have "take (binarySearch cmp p w 0 (length w)) w \<noteq> []" using assms(1) by simp
  then show ?thesis using False by (simp add: insertPivot_def Let_def hd_append)
qed

lemma insertPivot_not_Nil: "insertPivot cmp w p \<noteq> []"
  by (simp add: insertPivot_def Let_def)

lemma hd_binaryInsertionSort:
  "run \<noteq> [] \<Longrightarrow> \<forall>x\<in>set rest. x = hd run \<or> \<not> isNegative (cmp x (hd run))
     \<Longrightarrow> hd (binaryInsertionSort cmp run rest) = hd run"
proof (induction rest arbitrary: run)
  case Nil
  show ?case by (simp add: binaryInsertionSort_def)
next
  case (Cons x xs)
  have h: "hd (insertPivot cmp run x) = hd run"
    using Cons.prems by (intro hd_insertPivot) simp_all
  have "hd (binaryInsertionSort cmp (insertPivot cmp run x) xs) = hd (insertPivot cmp run x)"
    using Cons.prems h by (intro Cons.IH) (simp_all add: insertPivot_not_Nil)
  with h show ?case by (simp add: binaryInsertionSort_def)
qed

lemma countAndMakeRun_first:
  assumes "\<forall>x. x \<noteq> t \<longrightarrow> \<not> isNegative (cmp x t)"
    and "distinct ms" and "countAndMakeRun cmp (t # ms) = (ys, n)"
  shows "ys = t # ms \<and> 0 < n"
proof (cases ms)
  case Nil
  with assms(3) show ?thesis by (simp add: countAndMakeRun_def)
next
  case (Cons b rest)
  show ?thesis
  proof (cases "isNegative (cmp b t)")
    case False
    with assms(3) Cons show ?thesis by (auto simp: countAndMakeRun_def)
  next
    case True
    then have b: "b = t" using assms(1) by blast
    have "runDescending cmp t rest = 0"
    proof (cases rest)
      case (Cons x xs)
      then have "x \<noteq> t" using assms(2) \<open>ms = b # rest\<close> b by auto
      then show ?thesis using Cons assms(1) by simp
    qed simp
    with assms(3) Cons True b show ?thesis
      by (auto simp: countAndMakeRun_def Let_def numeral_2_eq_2)
  qed
qed

lemma hd_sortBy_first:
  assumes first: "\<forall>x. x \<noteq> t \<longrightarrow> \<not> isNegative (cmp x t)" and "distinct ms"
  shows "hd (sortBy cmp (t # ms)) = t"
proof (cases "length (t # ms) < 2")
  case True
  then show ?thesis by (simp add: sortBy_def)
next
  case False
  obtain ys n where c: "countAndMakeRun cmp (t # ms) = (ys, n)"
    by (cases "countAndMakeRun cmp (t # ms)")
  from countAndMakeRun_first [OF assms c] have ys: "ys = t # ms" and n: "0 < n" by simp_all
  have run: "take n ys \<noteq> []" "hd (take n ys) = t" using ys n by (cases n; simp)+
  have "\<forall>x\<in>set (drop n ys). x = t \<or> \<not> isNegative (cmp x t)"
    using first by blast
  then have "hd (binaryInsertionSort cmp (take n ys) (drop n ys)) = t"
    using run hd_binaryInsertionSort [of "take n ys" "drop n ys" cmp] by simp
  then show ?thesis using False c by (simp add: sortBy_def)
qed

text \<open>
  The comparator of the month options: \<open>All\<close> goes before every month, and two months of
  the form \<open>MM/YYYY\<close> are compared by their keys \<open>year * 12 + month\<close>.
\<close>

lemma overflowBound_pos: "0 < overflowBound"
  by (simp add: overflowBound_def)

lemma isNegative_f64: "isNegative (f64 d) = (d < 0)"
  using overflowBound_pos by (auto simp: f64_def)

lemma isMonthYear_form:
  assumes "isMonthYear s"
  obtains m1 m2 y1 y2 y3 y4 where "s = [m1, m2, CHR ''/'', y1, y2, y3, y4]"
    and "isDigit m1" "isDigit m2" "isDigit y1" "isDigit y2" "isDigit y3" "isDigit y4"
  using assms by (auto simp: isMonthYear_def split: list.splits)

lemma isMonthYear_not_All: "isMonthYear s \<Longrightarrow> s \<noteq> ''All''"
  by (auto simp: isMonthYear_def)

lemma isMonthYear_monthKey:
  assumes "isMonthYear s"
  shows "monthKey s = Num (real (chronoKey s))"
proof -
  from assms obtain m1 m2 y1 y2 y3 y4 where s: "s = [m1, m2, CHR ''/'', y1, y2, y3, y4]"
    and d: "isDigit m1" "isDigit m2" "isDigit y1" "isDigit y2" "isDigit y3" "isDigit y4"
    by (rule isMonthYear_form)
  have "monthKey ([m1, m2] @ ''/'' @ [y1, y2, y3, y4])
      = Num (real (decimalValue [y1, y2, y3, y4]) * 12 + real (decimalValue [m1, m2]))"
    using d by (intro monthKey_format) simp_all
  then show ?thesis by (simp add: s chronoKey_def decimalValue_def)
qed

lemma compareMonths_All_left: "compareMonths ''All'' b = Num (- 1)"
  by (simp add: compareMonths_def)

lemma compareMonths_All_right: "a \<noteq> ''All'' \<Longrightarrow> compareMonths a ''All'' = Num 1"
  by (simp add: compareMonths_def)

lemma compareMonths_consistent:
  assumes "a = ''All'' \<or> isMonthYear a" and "b = ''All'' \<or> isMonthYear b" and "a \<noteq> b"
  shows "isNegative (compareMonths a b)
     = ((if a = ''All'' then - 1 else real (chronoKey a))
        < (if b = ''All'' then - 1 else real (chronoKey b)))"
proof (cases "a = ''All''")
  case True
  then show ?thesis using assms by (simp add: compareMonths_All_left)
next
  case False
  show ?thesis
  proof (cases "b = ''All''")
    case True
    then show ?thesis using False by (simp add: compareMonths_All_right)
  next
    case bF: False
    have "monthKey a = Num (real (chronoKey a))" "monthKey b = Num (real (chronoKey b))"
      using assms False bF by (simp_all add: isMonthYear_monthKey)
    then show ?thesis
      using False bF by (simp add: compareMonths_def jsub_def isNegative_f64)
  qed
qed

lemma uniqueMonths_parts:
  "uniqueMonths rs = ''All'' # tl (uniqueMonths rs)
   \<and> mset (tl (uniqueMonths rs)) = mset (setOf (map monthYear rs))"
proof -
  let ?ms = "setOf (map monthYear rs)"
  have "\<forall>x. x \<noteq> ''All'' \<longrightarrow> \<not> isNegative (compareMonths x ''All'')"
    by (simp add: compareMonths_All_right)
  then have h: "hd (uniqueMonths rs) = ''All''"
    unfolding uniqueMonths_def by (rule hd_sortBy_first) (rule distinct_setOf)
  have m: "mset (uniqueMonths rs) = add_mset ''All'' (mset ?ms)"
    by (simp add: uniqueMonths_def mset_sortBy)
  then have "uniqueMonths rs \<noteq> []" by auto
  with h have e: "uniqueMonths rs = ''All'' # tl (uniqueMonths rs)" by (cases "uniqueMonths rs") auto
  then have "mset (uniqueMonths rs) = add_mset ''All'' (mset (tl (uniqueMonths rs)))"
    by (metis mset.simps(2))
  with m e show ?thesis by simp
qed

lemma uniqueMonths_sorted:
  assumes "\<forall>r\<in>set rs. isMonthYear (monthYear r)"
  shows "sorted (map chronoKey (tl (uniqueMonths rs)))"
proof -
  let ?ms = "setOf (map monthYear rs)"
  let ?S = "insert ''All'' {s. isMonthYear s}"
  let ?k = "\<lambda>s. if s = ''All'' then - 1 else real (chronoKey s)"
  have my: "\<forall>s\<in>set ?ms. isMonthYear s" using assms by (auto simp: set_setOf)
  then have "''All'' \<notin> set ?ms" using isMonthYear_not_All by blast
  then have d: "distinct (''All'' # ?ms)" by (simp add: distinct_setOf)
  have s: "set (''All'' # ?ms) \<subseteq> ?S" using my by auto
  have cons: "\<forall>a\<in>?S. \<forall>b\<in>?S. a \<noteq> b \<longrightarrow> isNegative (compareMonths a b) = (?k a < ?k b)"
    using compareMonths_consistent by auto
  have "sorted (map ?k (sortBy compareMonths (''All'' # ?ms)))"
    by (rule sortBy_sorted [OF cons d s])
  then have "sorted (map ?k (uniqueMonths rs))" by (simp add: uniqueMonths_def)
  then have "sorted (map ?k (''All'' # tl (uniqueMonths rs)))"
    using uniqueMonths_parts [of rs] by simp
  then have st: "sorted (map ?k (tl (uniqueMonths rs)))" by simp
  have "set (tl (uniqueMonths rs)) = set ?ms"
    using uniqueMonths_parts [of rs] by (meson mset_eq_setD)
  then have "\<forall>x\<in>set (tl (uniqueMonths rs)). ?k x = real (chronoKey x)"
    using \<open>''All'' \<notin> set ?ms\<close> by auto
  then have "map ?k (tl (uniqueMonths rs)) = map (\<lambda>x. real (chronoKey x)) (tl (uniqueMonths rs))"
    by simp
  with st have "sorted (map (\<lambda>x. real (chronoKey x)) (tl (uniqueMonths rs)))" by simp
  then show ?thesis by (simp add: sorted_map)
qed

text \<open>
  C8 (amended). For every record collection the month options start with \<open>All\<close>, and the
  options after it are the distinct \<open>monthYear\<close> values of the records, each of them once.
  When every \<open>monthYear\<close> has the form \<open>MM/YYYY\<close>, the options after \<open>All\<close> are in
  chronological order: their keys \<open>year * 12 + month\<close> never decrease from one option to
  the next. Sorting the months \<open>03/2024\<close>, \<open>01/2024\<close>, \<open>All\<close>, \<open>02/2024\<close> gives \<open>All\<close>,
  \<open>01/2024\<close>, \<open>02/2024\<close>, \<open>03/2024\<close>.
\<close>

theorem uniqueMonths_chronological:
  "hd (uniqueMonths rs) = ''All''
   \<and> set (tl (uniqueMonths rs)) = monthYear ` set rs
   \<and> distinct (tl (uniqueMonths rs))
   \<and> ((\<forall>r\<in>set rs. isMonthYear (monthYear r))
        \<longrightarrow> sorted (map chronoKey (tl (uniqueMonths rs))))
   \<and> sortBy compareMonths [''03/2024'', ''01/2024'', ''All'', ''02/2024'']
       = [''All'', ''01/2024'', ''02/2024'', ''03/2024'']"
proof -
  have ex: "sortBy compareMonths [''03/2024'', ''01/2024'', ''All'', ''02/2024'']
       = [''All'', ''01/2024'', ''02/2024'', ''03/2024'']"
    by (simp add: sortBy_def countAndMakeRun_def binaryInsertionSort_def insertPivot_def
        binarySearch.simps compareMonths_def monthKey_def jsub_def num_defs)
  have p: "uniqueMonths rs = ''All'' # tl (uniqueMonths rs)"
    and m: "mset (tl (uniqueMonths rs)) = mset (setOf (map monthYear rs))"
    using uniqueMonths_parts [of rs] by simp_all
  have h: "hd (uniqueMonths rs) = ''All''" using p by (metis list.sel(1))
  have s: "set (tl (uniqueMonths rs)) = monthYear ` set rs"
    using mset_eq_setD [OF m] by (simp add: set_setOf)
  have d: "distinct (tl (uniqueMonths rs))"
    using mset_eq_imp_distinct_iff [OF m] by (simp add: distinct_setOf)
  show ?thesis using ex h s d uniqueMonths_sorted [of rs] by blast
qed

theorem uniqueMonths_chronological_witness:
  "uniqueMonths [sampleRecord ''Globex'' ''03/2024'' 10 5, sampleRecord ''Acme Corp'' ''01/2024'' 4 2,
                 sampleRecord ''Globex'' ''12/2023'' 1 1, sampleRecord ''Initech'' ''03/2024'' 1 1]
   = [''All'', ''12/2023'', ''01/2024'', ''03/2024'']
   \<and> sorted (map chronoKey [''12/2023'', ''01/2024'', ''03/2024''])"
proof -
  let ?rs = "[sampleRecord ''Globex'' ''03/2024'' 10 5, sampleRecord ''Acme Corp'' ''01/2024'' 4 2,
              sampleRecord ''Globex'' ''12/2023'' 1 1, sampleRecord ''Initech'' ''03/2024'' 1 1]"
  have u: "uniqueMonths ?rs = [''All'', ''12/2023'', ''01/2024'', ''03/2024'']"
    by (simp add: uniqueMonths_def setOf_def sampleRecord_def sortBy_def countAndMakeRun_def
        binaryInsertionSort_def insertPivot_def binarySearch.simps compareMonths_def
        monthKey_def jsub_def num_defs)
  have f: "\<forall>r\<in>set ?rs. isMonthYear (monthYear r)"
    by (simp add: sampleRecord_def isMonthYear_def isDigit_def)
  from uniqueMonths_chronological [of ?rs] f
  have "sorted (map chronoKey (tl (uniqueMonths ?rs)))" by blast
  then show ?thesis by (simp add: u)
qed

text \<open>
  The claim of C8 fails for a collection that holds a month which does not decode. The
  comparator returns NaN for such a month against any other, the sort reads NaN as
  \<open>0\<close> (neither goes before the other), and so the months \<open>03/2024\<close>, \<open>n/a\<close>, \<open>TBD\<close>,
  \<open>01/2024\<close> are one ascending run that the sort leaves as it is: March 2024 comes
  before January 2024.
\<close>

theorem uniqueMonths_undecodable:
  "uniqueMonths [sampleRecord ''Globex'' ''03/2024'' 10 5, sampleRecord ''Globex'' ''n/a'' 4 2,
                 sampleRecord ''Globex'' ''TBD'' 1 1, sampleRecord ''Globex'' ''01/2024'' 1 1]
   = [''All'', ''03/2024'', ''n/a'', ''TBD'', ''01/2024'']
   \<and> chronoKey ''01/2024'' < chronoKey ''03/2024''"
  by (simp add: uniqueMonths_def setOf_def sampleRecord_def sortBy_def countAndMakeRun_def
      binaryInsertionSort_def insertPivot_def binarySearch.simps compareMonths_def
      monthKey_def jsub_def num_defs chronoKey_def)

end
